theory Spec2Isabelle
  imports Complex_Main "HOL-Library.Multiset"
begin

section \<open>Surface meshes of \<open>opengl_surface.py\<close> and the scales of \<open>scale.py\<close>\<close>

text \<open>
  The NumPy arrays of the source are lists: a point array of shape \<open>(n, 3)\<close> is a list
  of triples, an index array a list of naturals. Python's \<open>float\<close> is the type
  \<open>real\<close>: the statements about meshes are about the exact arithmetic the code writes
  down, not about rounding. Where a result of the floating-point library is returned as it
  is (the power and the logarithm of \<open>scale.py\<close>), the library's rounded operations are
  parameters and nothing is assumed of their values. Exceptions are values of \<open>py_error\<close>.
\<close>

datatype py_error = ValueError | IndexError | ZeroDivisionError | TypeError | OverflowError

type_synonym point = "real \<times> real \<times> real"

subsection \<open>Array helpers: \<open>reshape\<close>, \<open>flatten\<close>, strided assignment\<close>

text \<open>\<open>arr.reshape((nu, nv))\<close> of a flat array of \<open>nu * nv\<close> entries: row \<open>i\<close> holds the
  entries \<open>i * nv .. i * nv + nv - 1\<close>.\<close>

definition reshape2 :: "nat \<Rightarrow> nat \<Rightarrow> 'a list \<Rightarrow> 'a list list" where
  "reshape2 nu nv xs = map (\<lambda>i. take nv (drop (i * nv) xs)) [0..<nu]"

text \<open>\<open>np.arange(n)\<close> and \<open>np.zeros(n, dtype=int)\<close>.\<close>

definition arange :: "nat \<Rightarrow> nat list" where
  "arange n = [0..<n]"

definition zeros :: "nat \<Rightarrow> nat list" where
  "zeros n = replicate n 0"

text \<open>\<open>xs[k::step] = vals\<close>: the positions \<open>k, k + step, k + 2 * step, ...\<close> of \<open>xs\<close>
  receive the entries of \<open>vals\<close> in order; every other position keeps its entry.\<close>

definition assign_stride :: "nat \<Rightarrow> nat \<Rightarrow> 'a list \<Rightarrow> 'a list \<Rightarrow> 'a list" where
  "assign_stride k step xs vals =
     map (\<lambda>p. if k \<le> p \<and> (p - k) mod step = 0 then vals ! ((p - k) div step) else xs ! p)
         [0..<length xs]"

text \<open>\<open>xs[k::step] = vals\<close> as NumPy checks it: the values fill the positions when there
  is one value for each position, a single value is broadcast to all of them, and any other
  number of values is a \<open>ValueError\<close>.\<close>

definition stride_positions :: "nat \<Rightarrow> nat \<Rightarrow> nat \<Rightarrow> nat list" where
  "stride_positions k step n = filter (\<lambda>p. k \<le> p \<and> (p - k) mod step = 0) [0..<n]"

definition assign_stride_checked :: "nat \<Rightarrow> nat \<Rightarrow> 'a list \<Rightarrow> 'a list \<Rightarrow> py_error + 'a list" where
  "assign_stride_checked k step xs vals =
     (let slots = length (stride_positions k step (length xs)) in
      if length vals = slots then Inr (assign_stride k step xs vals)
      else if length vals = 1 then Inr (assign_stride k step xs (replicate slots (vals ! 0)))
      else Inl ValueError)"

text \<open>\<open>xs[k::step]\<close> read as a new array.\<close>

definition get_stride :: "nat \<Rightarrow> nat \<Rightarrow> 'a list \<Rightarrow> 'a list" where
  "get_stride k step xs = map (\<lambda>p. xs ! p) (stride_positions k step (length xs))"

text \<open>Python indexing \<open>xs[i]\<close> on an axis of length \<open>n\<close>: a negative index counts from the
  end, an index outside \<open>-n .. n - 1\<close> raises \<open>IndexError\<close>. A slice bound is clamped
  instead.\<close>

definition py_index :: "nat \<Rightarrow> int \<Rightarrow> py_error + nat" where
  "py_index n i =
     (if 0 \<le> i \<and> i < int n then Inr (nat i)
      else if - int n \<le> i \<and> i < 0 then Inr (nat (int n + i))
      else Inl IndexError)"

definition slice_bound :: "nat \<Rightarrow> int \<Rightarrow> nat" where
  "slice_bound n i = (if i < 0 then nat (max 0 (int n + i)) else min n (nat i))"

text \<open>A list of results is a result: the first error wins.\<close>

fun collect :: "('e + 'a) list \<Rightarrow> 'e + 'a list" where
  "collect [] = Inr []"
| "collect (x # xs) =
     (case x of Inl e \<Rightarrow> Inl e
      | Inr y \<Rightarrow> (case collect xs of Inl e \<Rightarrow> Inl e | Inr ys \<Rightarrow> Inr (y # ys)))"

text \<open>\<open>np.linspace(start, stop, num)\<close>: \<open>num\<close> evenly spaced samples, both ends included.\<close>

definition linspace :: "real \<Rightarrow> real \<Rightarrow> nat \<Rightarrow> real list" where
  "linspace start stop num =
     (if num = 1 then [start]
      else map (\<lambda>i. start + real i * ((stop - start) / real (num - 1))) [0..<num])"

subsection \<open>Arrays in memory\<close>

text \<open>
  Partial reveal reads one surface's point array and writes another's, in place, so the
  arrays live in a store: a buffer for each address. An array object is a window on a
  buffer (\<open>arr[:k]\<close> is a view, not a copy); \<open>arr.copy()\<close> allocates a fresh buffer.
\<close>

type_synonym addr = nat

record store =
  buffers :: "addr \<Rightarrow> point list"
  next_free :: addr

record view =
  buf :: addr
  offset :: nat
  count :: nat

definition alloc :: "point list \<Rightarrow> store \<Rightarrow> addr \<times> store" where
  "alloc ps st =
     (next_free st, st\<lparr>buffers := (buffers st)(next_free st := ps), next_free := Suc (next_free st)\<rparr>)"

definition read_view :: "store \<Rightarrow> view \<Rightarrow> point list" where
  "read_view st v = take (count v) (drop (offset v) (buffers st (buf v)))"

definition write_view :: "view \<Rightarrow> point list \<Rightarrow> store \<Rightarrow> store" where
  "write_view v ps st =
     st\<lparr>buffers := (buffers st)(buf v :=
          take (offset v) (buffers st (buf v)) @ ps @ drop (offset v + count v) (buffers st (buf v)))\<rparr>"

definition copy_view :: "view \<Rightarrow> store \<Rightarrow> view \<times> store" where
  "copy_view v st =
     (case alloc (read_view st v) st of (a, st') \<Rightarrow> (\<lparr>buf = a, offset = 0, count = count v\<rparr>, st'))"

subsection \<open>The surface\<close>

record surface =
  passed_uv_func :: "(real \<Rightarrow> real \<Rightarrow> point) option"
  u_range :: "real \<times> real"
  v_range :: "real \<times> real"
  resolution :: "nat \<times> nat"
  prefered_creation_axis :: int
  epsilon :: real
  points :: addr
  triangle_indices :: "nat list"

text \<open>Modelled from the spec: the host base class \<open>OpenGLMobject\<close> is not among the
  sources. The spec gives its contract: \<open>set_points(array)\<close> stores a flat point buffer and
  the \<open>points\<close> property returns it; the fast path of partial reveal (\<open>match_points\<close>)
  copies the other object's full array unchanged. The model writes the object's own buffer.\<close>

definition get_points :: "store \<Rightarrow> 'a surface_scheme \<Rightarrow> point list" where
  "get_points st s = buffers st (points s)"

definition set_points :: "point list \<Rightarrow> 'a surface_scheme \<Rightarrow> store \<Rightarrow> store" where
  "set_points ps s st = st\<lparr>buffers := (buffers st)(points s := ps)\<rparr>"

definition match_points :: "'a surface_scheme \<Rightarrow> 'b surface_scheme \<Rightarrow> store \<Rightarrow> store" where
  "match_points s smobject st = set_points (get_points st smobject) s st"

text \<open>\<open>OpenGLSurface.uv_func\<close>: the function passed at construction when there is one,
  the flat plane otherwise.\<close>

definition uv_func :: "'a surface_scheme \<Rightarrow> real \<Rightarrow> real \<Rightarrow> point" where
  "uv_func s u v = (case passed_uv_func s of Some f \<Rightarrow> f u v | None \<Rightarrow> (u, v, 0))"

subsection \<open>\<open>compute_triangle_indices\<close>\<close>

text \<open>The four corner slices of the index grid, each flattened:
  \<open>index_grid[:-1, :-1]\<close>, \<open>index_grid[+1:, :-1]\<close>, \<open>index_grid[:-1, +1:]\<close> and
  \<open>index_grid[+1:, +1:]\<close>.\<close>

definition top_left :: "'a list list \<Rightarrow> 'a list" where
  "top_left g = concat (map butlast (butlast g))"

definition bottom_left :: "'a list list \<Rightarrow> 'a list" where
  "bottom_left g = concat (map butlast (tl g))"

definition top_right :: "'a list list \<Rightarrow> 'a list" where
  "top_right g = concat (map tl (butlast g))"

definition bottom_right :: "'a list list \<Rightarrow> 'a list" where
  "bottom_right g = concat (map tl (tl g))"

definition compute_triangle_indices :: "nat \<times> nat \<Rightarrow> nat list" where
  "compute_triangle_indices res =
     (case res of (nu, nv) \<Rightarrow>
        if nu = 0 \<or> nv = 0 then zeros 0
        else
          let index_grid = reshape2 nu nv (arange (nu * nv));
              indices0 = zeros (6 * (nu - 1) * (nv - 1));
              indices1 = assign_stride 0 6 indices0 (top_left index_grid);
              indices2 = assign_stride 1 6 indices1 (bottom_left index_grid);
              indices3 = assign_stride 2 6 indices2 (top_right index_grid);
              indices4 = assign_stride 3 6 indices3 (top_right index_grid);
              indices5 = assign_stride 4 6 indices4 (bottom_left index_grid);
              indices6 = assign_stride 5 6 indices5 (bottom_right index_grid)
          in indices6)"

subsection \<open>Grid sampling: \<open>init_points\<close>\<close>

text \<open>The three point lists of \<open>init_points\<close>, for the offsets \<open>(0, 0)\<close>, \<open>(epsilon, 0)\<close>
  and \<open>(0, epsilon)\<close>; each is the grid of \<open>uv_func\<close> values, \<open>u\<close> outermost, flattened.\<close>

definition point_lists :: "'a surface_scheme \<Rightarrow> point list list" where
  "point_lists s =
     (case resolution s of (nu, nv) \<Rightarrow>
        map (\<lambda>(du, dv).
               concat (map (\<lambda>u. map (\<lambda>v. uv_func s (u + du) (v + dv))
                                    (linspace (fst (v_range s)) (snd (v_range s)) nv))
                           (linspace (fst (u_range s)) (snd (u_range s)) nu)))
            [(0, 0), (epsilon s, 0), (0, epsilon s)])"

text \<open>With no sample (\<open>nu = 0\<close> or \<open>nv = 0\<close>) the array of parameter pairs has no third
  axis and \<open>np.apply_along_axis(..., 2, uv_grid)\<close> raises NumPy's axis error, a
  \<open>ValueError\<close>; otherwise the stacked lists (\<open>np.vstack\<close>) become the point buffer.\<close>

definition init_points :: "'a surface_scheme \<Rightarrow> store \<Rightarrow> py_error + ('a surface_scheme \<times> store)" where
  "init_points s st =
     (case resolution s of (nu, nv) \<Rightarrow>
        if nu = 0 \<or> nv = 0 then Inl ValueError
        else Inr (s, set_points (concat (point_lists s)) s st))"

text \<open>\<open>get_surface_points_and_nudged_points\<close>: three views of the point buffer.\<close>

definition get_surface_points_and_nudged_points :: "store \<Rightarrow> 'a surface_scheme \<Rightarrow> view list" where
  "get_surface_points_and_nudged_points st s =
     (let k = length (get_points st s) div 3 in
      [\<lparr>buf = points s, offset = 0, count = k\<rparr>,
       \<lparr>buf = points s, offset = k, count = k\<rparr>,
       \<lparr>buf = points s, offset = 2 * k, count = length (get_points st s) - 2 * k\<rparr>])"

subsection \<open>Construction\<close>

text \<open>Modelled from the spec: the constructor of the host base class \<open>OpenGLMobject\<close> is
  not among the sources. By the spec's lifecycle the grid is computed once at construction:
  the object gets an empty point buffer of its own and the \<open>init_points\<close> of its class runs
  (the method is a parameter, as the call is dispatched on the class).\<close>

definition OpenGLMobject_init ::
  "('a surface_scheme \<Rightarrow> store \<Rightarrow> py_error + ('a surface_scheme \<times> store)) \<Rightarrow>
   'a surface_scheme \<Rightarrow> store \<Rightarrow> py_error + ('a surface_scheme \<times> store)" where
  "OpenGLMobject_init init_points_method self st =
     (case alloc [] st of (a, st1) \<Rightarrow> init_points_method (self\<lparr>points := a\<rparr>) st1)"

text \<open>\<open>OpenGLSurface.__init__\<close>: the attributes, the base class constructor, the triangle
  indices. An argument left out is \<open>None\<close>.\<close>

definition OpenGLSurface_init ::
  "('a surface_scheme \<Rightarrow> store \<Rightarrow> py_error + ('a surface_scheme \<times> store)) \<Rightarrow>
   'a surface_scheme \<Rightarrow> (real \<Rightarrow> real \<Rightarrow> point) option \<Rightarrow> (real \<times> real) option \<Rightarrow>
   (real \<times> real) option \<Rightarrow> (nat \<times> nat) option \<Rightarrow> int \<Rightarrow> real \<Rightarrow> store \<Rightarrow>
   py_error + ('a surface_scheme \<times> store)" where
  "OpenGLSurface_init init_points_method self uv_func_arg u_range_arg v_range_arg resolution_arg
       prefered_creation_axis_arg epsilon_arg st =
     (let self1 = self
            \<lparr>passed_uv_func := uv_func_arg,
             u_range := (case u_range_arg of Some r \<Rightarrow> r | None \<Rightarrow> (0, 1)),
             v_range := (case v_range_arg of Some r \<Rightarrow> r | None \<Rightarrow> (0, 1)),
             resolution := (case resolution_arg of Some r \<Rightarrow> r | None \<Rightarrow> (101, 101)),
             prefered_creation_axis := prefered_creation_axis_arg,
             epsilon := epsilon_arg\<rparr>
      in case OpenGLMobject_init init_points_method self1 st of
           Inl e \<Rightarrow> Inl e
         | Inr (self2, st2) \<Rightarrow>
             Inr (self2\<lparr>triangle_indices := compute_triangle_indices (resolution self2)\<rparr>, st2))"

text \<open>An object before its constructor has run: no attribute has been set yet, and every
  field below is overwritten before it is read.\<close>

definition new_surface :: surface where
  "new_surface =
     \<lparr>passed_uv_func = None, u_range = (0, 0), v_range = (0, 0), resolution = (0, 0),
      prefered_creation_axis = 0, epsilon = 0, points = 0, triangle_indices = []\<rparr>"

definition OpenGLSurface ::
  "(real \<Rightarrow> real \<Rightarrow> point) option \<Rightarrow> (real \<times> real) option \<Rightarrow> (real \<times> real) option \<Rightarrow>
   (nat \<times> nat) option \<Rightarrow> int \<Rightarrow> real \<Rightarrow> store \<Rightarrow> py_error + (surface \<times> store)" where
  "OpenGLSurface uv_func_arg u_range_arg v_range_arg resolution_arg axis_arg epsilon_arg st =
     OpenGLSurface_init init_points new_surface uv_func_arg u_range_arg v_range_arg
       resolution_arg axis_arg epsilon_arg st"

subsection \<open>\<open>OpenGLSurfaceGroup\<close>\<close>

record surface_group = surface +
  submobjects :: "surface list"

definition new_surface_group :: surface_group where
  "new_surface_group =
     \<lparr>passed_uv_func = None, u_range = (0, 0), v_range = (0, 0), resolution = (0, 0),
      prefered_creation_axis = 0, epsilon = 0, points = 0, triangle_indices = [],
      submobjects = []\<rparr>"

text \<open>\<open>OpenGLSurfaceGroup.init_points\<close> is \<open>pass\<close>.\<close>

definition init_points_group :: "surface_group \<Rightarrow> store \<Rightarrow> py_error + (surface_group \<times> store)" where
  "init_points_group s st = Inr (s, st)"

text \<open>The keyword arguments a caller may pass on to \<open>OpenGLSurface.__init__\<close>; a keyword
  left out is \<open>None\<close>. (Keywords of the host base class, such as the colour, touch no field
  of the model.)\<close>

record surface_kwargs =
  kw_uv_func :: "(real \<Rightarrow> real \<Rightarrow> point) option"
  kw_u_range :: "(real \<times> real) option"
  kw_v_range :: "(real \<times> real) option"
  kw_prefered_creation_axis :: "int option"
  kw_epsilon :: "real option"

text \<open>\<open>OpenGLSurfaceGroup.__init__(self, *parametric_surfaces, resolution=None, **kwargs)\<close>:
  the group assigns its resolution, then calls \<open>OpenGLSurface.__init__(uv_func=None, **kwargs)\<close>.
  A keyword \<open>uv_func\<close> among \<open>kwargs\<close> meets the explicit \<open>uv_func=None\<close>: Python raises a
  \<open>TypeError\<close> for the repeated keyword. The keyword \<open>resolution\<close> is taken by the group's
  own parameter, so it is never among \<open>kwargs\<close>: the base constructor runs with
  \<open>resolution=None\<close>. The other keywords pass through, with the defaults of the base
  constructor (\<open>prefered_creation_axis=1\<close>, \<open>epsilon=1e-5\<close>). Last, \<open>add\<close> (of the host base
  class; the spec: the group aggregates the child surfaces) appends the children.\<close>

definition OpenGLSurfaceGroup ::
  "surface list \<Rightarrow> (nat \<times> nat) option \<Rightarrow> surface_kwargs \<Rightarrow> store \<Rightarrow>
   py_error + (surface_group \<times> store)" where
  "OpenGLSurfaceGroup parametric_surfaces resolution_arg kwargs st =
     (let self0 = new_surface_group
            \<lparr>resolution := (case resolution_arg of None \<Rightarrow> (0, 0) | Some r \<Rightarrow> r)\<rparr>
      in if kw_uv_func kwargs \<noteq> None then Inl TypeError
         else
           case OpenGLSurface_init init_points_group self0 None (kw_u_range kwargs)
                  (kw_v_range kwargs) None
                  (case kw_prefered_creation_axis kwargs of None \<Rightarrow> 1 | Some ax \<Rightarrow> ax)
                  (case kw_epsilon kwargs of None \<Rightarrow> 1 / 100000 | Some e \<Rightarrow> e) st of
             Inl e \<Rightarrow> Inl e
           | Inr (self1, st1) \<Rightarrow>
               Inr (self1\<lparr>submobjects := submobjects self1 @ parametric_surfaces\<rparr>, st1))"

subsection \<open>\<open>OpenGLTexturedSurface\<close>\<close>

record textured_surface = surface +
  uv_surface :: surface
  im_coords :: "(real \<times> real) list"

text \<open>\<open>OpenGLTexturedSurface.init_points\<close>: the points of the base surface, and the texture
  coordinates of the grid, \<open>u\<close> outermost.\<close>

definition init_points_textured ::
  "textured_surface \<Rightarrow> store \<Rightarrow> py_error + (textured_surface \<times> store)" where
  "init_points_textured s st =
     (case resolution (uv_surface s) of (nu, nv) \<Rightarrow>
        Inr (s\<lparr>im_coords := concat (map (\<lambda>u. map (\<lambda>v. (u, v)) (linspace 1 0 nv)) (linspace 0 1 nu))\<rparr>,
             set_points (get_points st (uv_surface s)) s st))"

subsection \<open>Partial reveal: \<open>get_partial_points_array\<close>\<close>

text \<open>
  The helpers \<open>integer_interpolate\<close> and \<open>interpolate\<close> of \<open>utils.bezier\<close> are not among
  the sources: the functions below take them as parameters.

  One axis of the reshaped array, with the two assignments of the source in their order:
  \<open>xs[:lower_index] = interpolate(xs[lower_index], xs[lower_index + 1], lower_residue)\<close>, then
  \<open>xs[upper_index + 1:] = interpolate(xs[upper_index], xs[upper_index + 1], upper_residue)\<close>,
  which reads the array the first assignment has written. An index out of range raises.
\<close>

definition collapse_line ::
  "('b \<Rightarrow> 'b \<Rightarrow> real \<Rightarrow> 'b) \<Rightarrow> 'b list \<Rightarrow> int \<Rightarrow> real \<Rightarrow> int \<Rightarrow> real \<Rightarrow> py_error + 'b list" where
  "collapse_line interpolate xs lower_index lower_residue upper_index upper_residue =
     (let n = length xs in
      case py_index n lower_index of Inl e \<Rightarrow> Inl e | Inr l0 \<Rightarrow>
      case py_index n (lower_index + 1) of Inl e \<Rightarrow> Inl e | Inr l1 \<Rightarrow>
      let lower = interpolate (xs ! l0) (xs ! l1) lower_residue;
          ys = map (\<lambda>i. if i < slice_bound n lower_index then lower else xs ! i) [0..<n]
      in
      case py_index n upper_index of Inl e \<Rightarrow> Inl e | Inr u0 \<Rightarrow>
      case py_index n (upper_index + 1) of Inl e \<Rightarrow> Inl e | Inr u1 \<Rightarrow>
      let upper = interpolate (ys ! u0) (ys ! u1) upper_residue
      in Inr (map (\<lambda>i. if slice_bound n (upper_index + 1) \<le> i then upper else ys ! i) [0..<n]))"

text \<open>\<open>interpolate\<close> on two rows of the grid works entry by entry.\<close>

definition interpolate_rows :: "('a \<Rightarrow> 'a \<Rightarrow> real \<Rightarrow> 'a) \<Rightarrow> 'a list \<Rightarrow> 'a list \<Rightarrow> real \<Rightarrow> 'a list" where
  "interpolate_rows interpolate r1 r2 alpha = map (\<lambda>(p, q). interpolate p q alpha) (zip r1 r2)"

text \<open>
  \<open>get_partial_points_array(points, a, b, resolution, axis)\<close> on the array's entries.
  The argument \<open>resolution\<close> (here \<open>shape\<close>) is \<open>(nu, nv, w)\<close> with \<open>w\<close> the width of an
  entry (3 for points, 2 for texture coordinates), so \<open>reshape\<close> succeeds exactly when there
  are \<open>nu * nv\<close> entries and raises a \<open>ValueError\<close> otherwise. \<open>resolution[axis]\<close> is a
  tuple index; the branch is on \<open>axis == 0\<close>, every other axis works on the columns.
\<close>

definition get_partial_points_array ::
  "(int \<Rightarrow> int \<Rightarrow> real \<Rightarrow> int \<times> real) \<Rightarrow> ('a \<Rightarrow> 'a \<Rightarrow> real \<Rightarrow> 'a) \<Rightarrow>
   'a list \<Rightarrow> real \<Rightarrow> real \<Rightarrow> nat \<times> nat \<times> nat \<Rightarrow> int \<Rightarrow> py_error + 'a list" where
  "get_partial_points_array integer_interpolate interpolate pts a b shape axis =
     (if length pts = 0 then Inr pts
      else case shape of (nu, nv, w) \<Rightarrow>
        if length pts \<noteq> nu * nv then Inl ValueError
        else case py_index 3 axis of Inl e \<Rightarrow> Inl e | Inr ax \<Rightarrow>
          let grid = reshape2 nu nv pts;
              max_index = int ([nu, nv, w] ! ax) - 1
          in case integer_interpolate 0 max_index a of (lower_index, lower_residue) \<Rightarrow>
             case integer_interpolate 0 max_index b of (upper_index, upper_residue) \<Rightarrow>
               if axis = 0 then
                 (case collapse_line (interpolate_rows interpolate) grid
                         lower_index lower_residue upper_index upper_residue of
                    Inl e \<Rightarrow> Inl e
                  | Inr grid' \<Rightarrow> Inr (concat grid'))
               else
                 (case collect (map (\<lambda>row. collapse_line interpolate row
                         lower_index lower_residue upper_index upper_residue) grid) of
                    Inl e \<Rightarrow> Inl e
                  | Inr grid' \<Rightarrow> Inr (concat grid')))"

text \<open>The same on an array in memory: the array is written in place and returned.\<close>

definition get_partial_points_array_inplace ::
  "(int \<Rightarrow> int \<Rightarrow> real \<Rightarrow> int \<times> real) \<Rightarrow> (point \<Rightarrow> point \<Rightarrow> real \<Rightarrow> point) \<Rightarrow>
   view \<Rightarrow> real \<Rightarrow> real \<Rightarrow> nat \<times> nat \<times> nat \<Rightarrow> int \<Rightarrow> store \<Rightarrow> py_error + (view \<times> store)" where
  "get_partial_points_array_inplace integer_interpolate interpolate arr a b shape axis st =
     (case get_partial_points_array integer_interpolate interpolate (read_view st arr) a b
             shape axis of
        Inl e \<Rightarrow> Inl e
      | Inr ps \<Rightarrow> Inr (arr, write_view arr ps st))"

subsection \<open>Partial reveal: \<open>pointwise_become_partial\<close>\<close>

text \<open>The list comprehension of \<open>pointwise_become_partial\<close>: each array of the source is
  copied (\<open>arr.copy()\<close>) and the copy goes through \<open>get_partial_points_array\<close>.\<close>

fun partial_arrays ::
  "(int \<Rightarrow> int \<Rightarrow> real \<Rightarrow> int \<times> real) \<Rightarrow> (point \<Rightarrow> point \<Rightarrow> real \<Rightarrow> point) \<Rightarrow>
   view list \<Rightarrow> real \<Rightarrow> real \<Rightarrow> nat \<times> nat \<times> nat \<Rightarrow> int \<Rightarrow> store \<Rightarrow> py_error + (view list \<times> store)" where
  "partial_arrays integer_interpolate interpolate [] a b shape axis st = Inr ([], st)"
| "partial_arrays integer_interpolate interpolate (arr # arrs) a b shape axis st =
     (case copy_view arr st of (c, st1) \<Rightarrow>
      case get_partial_points_array_inplace integer_interpolate interpolate c a b shape axis st1 of
        Inl e \<Rightarrow> Inl e
      | Inr (r, st2) \<Rightarrow>
          (case partial_arrays integer_interpolate interpolate arrs a b shape axis st2 of
             Inl e \<Rightarrow> Inl e
           | Inr (rs, st3) \<Rightarrow> Inr (r # rs, st3)))"

text \<open>\<open>OpenGLSurface.pointwise_become_partial(self, smobject, a, b, axis=None)\<close>; the result
  is the store, where the buffer of \<open>self\<close> has been written.\<close>

definition pointwise_become_partial ::
  "(int \<Rightarrow> int \<Rightarrow> real \<Rightarrow> int \<times> real) \<Rightarrow> (point \<Rightarrow> point \<Rightarrow> real \<Rightarrow> point) \<Rightarrow>
   'a surface_scheme \<Rightarrow> 'b surface_scheme \<Rightarrow> real \<Rightarrow> real \<Rightarrow> int option \<Rightarrow> store \<Rightarrow> py_error + store" where
  "pointwise_become_partial integer_interpolate interpolate self smobject a b axis_arg st =
     (let axis = (case axis_arg of None \<Rightarrow> prefered_creation_axis self | Some ax \<Rightarrow> ax) in
      if a \<le> 0 \<and> b \<ge> 1 then Inr (match_points self smobject st)
      else case resolution smobject of (nu, nv) \<Rightarrow>
        (case partial_arrays integer_interpolate interpolate
                (get_surface_points_and_nudged_points st smobject) a b (nu, nv, 3) axis st of
           Inl e \<Rightarrow> Inl e
         | Inr (arrs, st1) \<Rightarrow> Inr (set_points (concat (map (read_view st1) arrs)) self st1)))"

text \<open>\<open>dst[:] = src\<close> on arrays of shape \<open>(n, w)\<close> and \<open>(m, w)\<close>: NumPy copies when
  \<open>m = n\<close>, broadcasts a single row, and raises a \<open>ValueError\<close> otherwise.\<close>

definition assign_all :: "'a list \<Rightarrow> 'a list \<Rightarrow> py_error + 'a list" where
  "assign_all dst src =
     (if length src = length dst then Inr src
      else if length src = 1 then Inr (replicate (length dst) (src ! 0))
      else Inl ValueError)"

text \<open>\<open>OpenGLTexturedSurface.pointwise_become_partial(self, tsmobject, a, b, axis=1)\<close>.\<close>

definition pointwise_become_partial_textured ::
  "(int \<Rightarrow> int \<Rightarrow> real \<Rightarrow> int \<times> real) \<Rightarrow> (point \<Rightarrow> point \<Rightarrow> real \<Rightarrow> point) \<Rightarrow>
   (real \<times> real \<Rightarrow> real \<times> real \<Rightarrow> real \<Rightarrow> real \<times> real) \<Rightarrow>
   textured_surface \<Rightarrow> textured_surface \<Rightarrow> real \<Rightarrow> real \<Rightarrow> int \<Rightarrow> store \<Rightarrow>
   py_error + (textured_surface \<times> store)" where
  "pointwise_become_partial_textured integer_interpolate interpolate interpolate_uv
       self tsmobject a b axis st =
     (case pointwise_become_partial integer_interpolate interpolate self tsmobject a b (Some axis) st of
        Inl e \<Rightarrow> Inl e
      | Inr st1 \<Rightarrow>
          (case assign_all (im_coords self) (im_coords tsmobject) of
             Inl e \<Rightarrow> Inl e
           | Inr ic \<Rightarrow>
               if a \<le> 0 \<and> b \<ge> 1 then Inr (self\<lparr>im_coords := ic\<rparr>, st1)
               else case resolution tsmobject of (nu, nv) \<Rightarrow>
                 (case get_partial_points_array integer_interpolate interpolate_uv ic a b
                         (nu, nv, 2) axis of
                    Inl e \<Rightarrow> Inl e
                  | Inr ic' \<Rightarrow>
                      (case assign_all ic ic' of
                         Inl e \<Rightarrow> Inl e
                       | Inr ic'' \<Rightarrow> Inr (self\<lparr>im_coords := ic''\<rparr>, st1)))))"

text \<open>Modelled from the spec: \<open>integer_interpolate\<close> and \<open>interpolate\<close> of \<open>utils.bezier\<close>
  are missing. The spec: the fraction is mapped to \<open>index = floor(lo + frac * (hi - lo))\<close>
  clamped to \<open>[lo, hi]\<close>, paired with a residue fraction in \<open>[0, 1)\<close>; and the collapsed
  region is the linear interpolation between two rows, weighted by the residue.\<close>

definition integer_interpolate :: "int \<Rightarrow> int \<Rightarrow> real \<Rightarrow> int \<times> real" where
  "integer_interpolate lo hi fraction =
     (let x = real_of_int lo + fraction * real_of_int (hi - lo)
      in (max lo (min hi \<lfloor>x\<rfloor>), x - real_of_int \<lfloor>x\<rfloor>))"

definition interpolate :: "point \<Rightarrow> point \<Rightarrow> real \<Rightarrow> point" where
  "interpolate p q alpha =
     (case p of (x1, y1, z1) \<Rightarrow> case q of (x2, y2, z2) \<Rightarrow>
        ((1 - alpha) * x1 + alpha * x2, (1 - alpha) * y1 + alpha * y2, (1 - alpha) * z1 + alpha * z2))"

subsection \<open>Depth sorting: \<open>sort_faces_back_to_front\<close>\<close>

definition dot :: "point \<Rightarrow> point \<Rightarrow> real" where
  "dot p q = (case p of (x1, y1, z1) \<Rightarrow> case q of (x2, y2, z2) \<Rightarrow> x1 * x2 + y1 * y2 + z1 * z2)"

text \<open>
  The key of a triangle reads the point its first index names; an index beyond the point
  buffer raises \<open>IndexError\<close>. \<open>list.sort\<close> is a stable sort, as \<open>sort_key\<close> is. Then each
  of the three strided slices of the index buffer is permuted:
  \<open>tri_is[k::3] = tri_is[k::3][indices]\<close>.
\<close>

definition sort_faces_back_to_front ::
  "'a surface_scheme \<Rightarrow> point \<Rightarrow> store \<Rightarrow> py_error + 'a surface_scheme" where
  "sort_faces_back_to_front self vect st =
     (let tri_is = triangle_indices self;
          indices = [0..<length tri_is div 3];
          pts = get_points st self;
          index_dot = (\<lambda>index. dot (pts ! (tri_is ! (3 * index))) vect)
      in if \<exists>index \<in> set indices. length pts \<le> tri_is ! (3 * index) then Inl IndexError
         else
           let sorted_indices = sort_key index_dot indices in
           case assign_stride_checked 0 3 tri_is
                  (map (\<lambda>i. get_stride 0 3 tri_is ! i) sorted_indices) of
             Inl e \<Rightarrow> Inl e
           | Inr tri_is1 \<Rightarrow>
           case assign_stride_checked 1 3 tri_is1
                  (map (\<lambda>i. get_stride 1 3 tri_is1 ! i) sorted_indices) of
             Inl e \<Rightarrow> Inl e
           | Inr tri_is2 \<Rightarrow>
           case assign_stride_checked 2 3 tri_is2
                  (map (\<lambda>i. get_stride 2 3 tri_is2 ! i) sorted_indices) of
             Inl e \<Rightarrow> Inl e
           | Inr tri_is3 \<Rightarrow> Inr (self\<lparr>triangle_indices := tri_is3\<rparr>))"

text \<open>The triangles of an index buffer, as whole groups of three indices.\<close>

definition triangles :: "nat list \<Rightarrow> (nat \<times> nat \<times> nat) list" where
  "triangles tri_is =
     map (\<lambda>t. (tri_is ! (3 * t), tri_is ! (3 * t + 1), tri_is ! (3 * t + 2)))
         [0..<length tri_is div 3]"

subsection \<open>Colouring by value: \<open>set_fill_by_value\<close>\<close>

text \<open>\<open>colors\<close> is a list of \<open>(color, pivot)\<close> tuples or a list of colours.\<close>

datatype 'c colors_arg = Tuples "('c \<times> real) list" | Plain "'c list"

definition py_get :: "'a list \<Rightarrow> int \<Rightarrow> py_error + 'a" where
  "py_get xs i = (case py_index (length xs) i of Inl e \<Rightarrow> Inl e | Inr k \<Rightarrow> Inr (xs ! k))"

text \<open>\<open>np.arange(start, stop, step)\<close> on numbers: \<open>ceil((stop - start) / step)\<close> entries,
  and a zero step is a division by zero.\<close>

definition arange_real :: "real \<Rightarrow> real \<Rightarrow> real \<Rightarrow> py_error + real list" where
  "arange_real start stop step =
     (if step = 0 then Inl ZeroDivisionError
      else Inr (map (\<lambda>i. start + real i * step) [0..<nat \<lceil>(stop - start) / step\<rceil>]))"

text \<open>The index of the first pivot above the value: the \<open>for\<close> loop with its \<open>break\<close>.\<close>

fun first_above :: "real list \<Rightarrow> real \<Rightarrow> nat \<Rightarrow> nat option" where
  "first_above [] z i = None"
| "first_above (pivot # pivots) z i = (if pivot > z then Some i else first_above pivots z (Suc i))"

text \<open>
  The body of the loop over the mesh elements, for one element with measured value
  \<open>z_value\<close>: the colour it is set to, or \<open>None\<close> when no branch sets one. The colour
  interpolation \<open>interpolate_color\<close> of \<open>utils.color\<close> is a parameter. In the last branch
  \<open>pivots[i] > z_value\<close> and no earlier pivot is, so the divisor is not zero when \<open>i > 0\<close>.
\<close>

definition color_of_value ::
  "('c \<Rightarrow> 'c \<Rightarrow> real \<Rightarrow> 'c) \<Rightarrow> 'c list \<Rightarrow> real list \<Rightarrow> real \<Rightarrow> py_error + 'c option" where
  "color_of_value interpolate_color new_colors pivots z_value =
     (case py_get pivots 0 of Inl e \<Rightarrow> Inl e | Inr p_first \<Rightarrow>
      if z_value \<le> p_first then
        (case py_get new_colors 0 of Inl e \<Rightarrow> Inl e | Inr c \<Rightarrow> Inr (Some c))
      else case py_get pivots (- 1) of Inl e \<Rightarrow> Inl e | Inr p_last \<Rightarrow>
      if z_value \<ge> p_last then
        (case py_get new_colors (- 1) of Inl e \<Rightarrow> Inl e | Inr c \<Rightarrow> Inr (Some c))
      else case first_above pivots z_value 0 of
        None \<Rightarrow> Inr None
      | Some i \<Rightarrow>
          (case py_get pivots (int i - 1) of Inl e \<Rightarrow> Inl e | Inr p_prev \<Rightarrow>
           let color_index = min ((z_value - p_prev) / (pivots ! i - p_prev)) 1 in
           case py_get new_colors (int i - 1) of Inl e \<Rightarrow> Inl e | Inr c_prev \<Rightarrow>
           case py_get new_colors (int i) of Inl e \<Rightarrow> Inl e | Inr c_next \<Rightarrow>
             Inr (Some (interpolate_color c_prev c_next color_index))))"

text \<open>\<open>set_fill_by_value(axes, colors)\<close>: \<open>z_range\<close> is \<open>axes.z_range\<close>, \<open>z_values\<close> are the
  values \<open>axes.point_to_coords(mob.get_midpoint())[2]\<close> of the family members with points, in
  order; the result lists the colour set on each member. Colours without pivots get evenly
  spaced pivots over the range (Python numbers: a single colour divides by zero).\<close>

definition set_fill_by_value ::
  "('c \<Rightarrow> 'c \<Rightarrow> real \<Rightarrow> 'c) \<Rightarrow> real \<times> real \<Rightarrow> 'c colors_arg \<Rightarrow> real list \<Rightarrow>
   py_error + 'c option list" where
  "set_fill_by_value interpolate_color z_range colors z_values =
     (case colors of
        Tuples cps \<Rightarrow>
          (if cps = [] then Inl IndexError
           else collect (map (color_of_value interpolate_color (map fst cps) (map snd cps)) z_values))
      | Plain new_colors \<Rightarrow>
          (if new_colors = [] then Inl IndexError
           else if length new_colors - 1 = 0 then Inl ZeroDivisionError
           else
             let pivot_min = fst z_range;
                 pivot_max = snd z_range;
                 pivot_frequency = (pivot_max - pivot_min) / real (length new_colors - 1)
             in case arange_real pivot_min (pivot_max + pivot_frequency) pivot_frequency of
                  Inl e \<Rightarrow> Inl e
                | Inr pivots \<Rightarrow>
                    collect (map (color_of_value interpolate_color new_colors pivots) z_values)))"

subsection \<open>The logarithmic scale of \<open>scale.py\<close>\<close>

record LogBase =
  base :: real
  custom_labels :: bool

text \<open>A Python number: \<open>base ** value\<close> is a complex number for a negative base and a
  fractional exponent; the model does not follow its value.\<close>

datatype py_number = PyFloat real | PyComplex

text \<open>A power whose exact value is at or above this bound rounds to infinity, and Python
  raises \<open>OverflowError\<close>: the largest double is \<open>2 ^ 1024 - 2 ^ 971\<close>, and the bound lies
  half a unit in the last place above it.\<close>

definition overflow_bound :: real where
  "overflow_bound = 2 ^ 1024 - 2 ^ 970"

text \<open>\<open>LogBase.function\<close>: \<open>self.base ** value\<close>, on floats. The parameter \<open>round_double\<close>
  is the rounding of an exact value in range to a double (a tiny value rounds to 0.0). A
  zero base with a negative exponent is a division by zero; a negative base gives a float
  for a whole exponent and a complex number otherwise.\<close>

definition LogBase_function :: "(real \<Rightarrow> real) \<Rightarrow> LogBase \<Rightarrow> real \<Rightarrow> py_error + py_number" where
  "LogBase_function round_double self v =
     (if base self > 0 then
        (if overflow_bound \<le> base self powr v then Inl OverflowError
         else Inr (PyFloat (round_double (base self powr v))))
      else if base self = 0 then
        (if v > 0 then Inr (PyFloat 0) else if v = 0 then Inr (PyFloat 1) else Inl ZeroDivisionError)
      else if v \<in> \<int> then
        (if overflow_bound \<le> \<bar>base self powi \<lfloor>v\<rfloor>\<bar> then Inl OverflowError
         else Inr (PyFloat (round_double (base self powi \<lfloor>v\<rfloor>))))
      else if overflow_bound \<le> \<bar>base self\<bar> powr v then Inl OverflowError
      else Inr PyComplex)"

text \<open>\<open>math.log(x, base)\<close> for floats: the quotient \<open>log(x) / log(base)\<close> of two rounded
  logarithms, itself rounded. The parameters are the library's logarithm of a positive
  double, \<open>float_log\<close>, and the division of doubles, \<open>float_div\<close>. An argument that is not
  positive is a domain error (\<open>ValueError\<close>); a base whose logarithm is 0.0, the base 1, is
  a division by zero.\<close>

definition math_log :: "(real \<Rightarrow> real) \<Rightarrow> (real \<Rightarrow> real \<Rightarrow> real) \<Rightarrow> real \<Rightarrow> real \<Rightarrow> py_error + real" where
  "math_log float_log float_div x b =
     (if x \<le> 0 \<or> b \<le> 0 then Inl ValueError
      else if float_log b = 0 then Inl ZeroDivisionError
      else Inr (float_div (float_log x) (float_log b)))"

text \<open>\<open>LogBase.inverse_function\<close>; comparing a complex number with 0 is a \<open>TypeError\<close>.\<close>

definition LogBase_inverse_function ::
  "(real \<Rightarrow> real) \<Rightarrow> (real \<Rightarrow> real \<Rightarrow> real) \<Rightarrow> LogBase \<Rightarrow> py_number \<Rightarrow> py_error + real" where
  "LogBase_inverse_function float_log float_div self v =
     (case v of
        PyComplex \<Rightarrow> Inl TypeError
      | PyFloat x \<Rightarrow>
          if x \<le> 0 then Inl ValueError else math_log float_log float_div x (base self))"

subsection \<open>Notions used to state the properties\<close>

text \<open>
  The entry at position \<open>k\<close> of one line of the grid along the chosen axis after partial
  reveal, in the spec's words: before the lower index the interpolation of the entries at
  the lower index and its successor, weighted by the lower residue; from the lower to the
  upper index the entry itself; after the upper index the interpolation of the entries at
  the upper index and its successor, weighted by the upper residue.
\<close>

definition reveal_entry ::
  "('a \<Rightarrow> 'a \<Rightarrow> real \<Rightarrow> 'a) \<Rightarrow> (nat \<Rightarrow> 'a) \<Rightarrow> nat \<Rightarrow> real \<Rightarrow> nat \<Rightarrow> real \<Rightarrow> nat \<Rightarrow> 'a" where
  "reveal_entry interp line lower_index lower_residue upper_index upper_residue k =
     (if k < lower_index then
        interp (line lower_index) (line (lower_index + 1)) lower_residue
      else if k \<le> upper_index then line k
      else interp (line upper_index) (line (upper_index + 1)) upper_residue)"

text \<open>The three arrays a point buffer splits into, as
  \<open>get_surface_points_and_nudged_points\<close> cuts them, and their lengths.\<close>

definition thirds :: "'a list \<Rightarrow> 'a list list" where
  "thirds xs = (let k = length xs div 3 in [take k xs, take k (drop k xs), drop (2 * k) xs])"

definition split_lengths :: "store \<Rightarrow> 'a surface_scheme \<Rightarrow> nat list" where
  "split_lengths st s = map (\<lambda>v. length (read_view st v)) (get_surface_points_and_nudged_points st s)"

text \<open>A small world for concrete evaluation: a source surface of resolution \<open>(4, 1)\<close>
  whose buffer holds the base points and the two nudged copies, and a target surface with a
  buffer of its own; and two textured surfaces on the same buffers.\<close>

definition example_buffer :: "point list" where
  "example_buffer =
     [(0, 0, 0), (1, 0, 0), (2, 0, 0), (3, 0, 0),
      (0, 1, 0), (1, 1, 0), (2, 1, 0), (3, 1, 0),
      (0, 0, 1), (1, 0, 1), (2, 0, 1), (3, 0, 1)]"

definition example_store :: store where
  "example_store = \<lparr>buffers = (\<lambda>a. if a = 0 then example_buffer else []), next_free = 2\<rparr>"

definition example_source :: surface where
  "example_source =
     \<lparr>passed_uv_func = None, u_range = (0, 3), v_range = (0, 0), resolution = (4, 1),
      prefered_creation_axis = 1, epsilon = 1, points = 0, triangle_indices = []\<rparr>"

definition example_target :: surface where
  "example_target =
     \<lparr>passed_uv_func = None, u_range = (0, 3), v_range = (0, 0), resolution = (4, 1),
      prefered_creation_axis = 1, epsilon = 1, points = 1, triangle_indices = []\<rparr>"

definition example_textured_source :: textured_surface where
  "example_textured_source =
     \<lparr>passed_uv_func = None, u_range = (0, 3), v_range = (0, 0), resolution = (4, 1),
      prefered_creation_axis = 1, epsilon = 1, points = 0, triangle_indices = [],
      uv_surface = example_source, im_coords = [(0, 1), (1 / 3, 1), (2 / 3, 1), (1, 1)]\<rparr>"

definition example_textured_target :: textured_surface where
  "example_textured_target =
     \<lparr>passed_uv_func = None, u_range = (0, 3), v_range = (0, 0), resolution = (4, 1),
      prefered_creation_axis = 1, epsilon = 1, points = 1, triangle_indices = [],
      uv_surface = example_source, im_coords = [(0, 0), (0, 0), (0, 0), (0, 0)]\<rparr>"

text \<open>The sort key of a triangle: the dot product of the position of its first vertex
  with the view direction.\<close>

definition triangle_key :: "point list \<Rightarrow> point \<Rightarrow> nat \<times> nat \<times> nat \<Rightarrow> real" where
  "triangle_key pts vect t = (case t of (i, j, k) \<Rightarrow> dot (pts ! i) vect)"

text \<open>A mesh of three triangles on the buffer above.\<close>

definition example_mesh :: surface where
  "example_mesh =
     \<lparr>passed_uv_func = None, u_range = (0, 3), v_range = (0, 0), resolution = (4, 1),
      prefered_creation_axis = 1, epsilon = 1, points = 0,
      triangle_indices = [8, 0, 1, 0, 1, 2, 4, 5, 6]\<rparr>"

section \<open>Verified properties\<close>

subsection \<open>Triangulation\<close>

lemma stride_cond:
  assumes "k < step"
  shows "(k \<le> p \<and> (p - k) mod step = 0) = (p mod step = (k::nat))"
proof
  assume a: "k \<le> p \<and> (p - k) mod step = 0"
  then obtain q where "p - k = step * q" by (auto simp: mod_eq_0_iff_dvd)
  with a have "p = k + step * q" by simp
  with assms show "p mod step = k" by simp
next
  assume a: "p mod step = k"
  then have "k \<le> p" using mod_less_eq_dividend[of p step] by simp
  moreover have "(p - k) mod step = 0" using a
    by (metis minus_mod_eq_mult_div mod_mult_self1_is_0)
  ultimately show "k \<le> p \<and> (p - k) mod step = 0" by simp
qed

lemma filter_eq_upt: "k < n \<Longrightarrow> filter (\<lambda>r. r = k) [0..<n] = [k]"
proof (induction n)
  case 0 then show ?case by simp
next
  case (Suc n)
  show ?case
  proof (cases "k < n")
    case True
    with Suc.IH show ?thesis by simp
  next
    case False
    with Suc.prems have k: "k = n" by simp
    have "filter (\<lambda>r. r = n) [0..<n] = []" by (auto simp: filter_empty_conv)
    with k show ?thesis by simp
  qed
qed

lemma stride_positions_block:
  assumes "k < step"
  shows "stride_positions k step (step * n) = map (\<lambda>q. step * q + k) [0..<n]"
proof (induction n)
  case 0 then show ?case by (simp add: stride_positions_def)
next
  case (Suc n)
  have split: "[0..<step * Suc n] = [0..<step * n] @ map (\<lambda>r. step * n + r) [0..<step]"
    using upt_add_eq_append[of 0 "step * n" step] by (simp add: map_add_upt add.commute)
  have "filter (\<lambda>p. p mod step = k) (map (\<lambda>r. step * n + r) [0..<step]) =
      map (\<lambda>r. step * n + r) (filter (\<lambda>r. r = k) [0..<step])"
  proof -
    have "filter (\<lambda>x. x mod step = k) [0..<step] = filter (\<lambda>r. r = k) [0..<step]"
      by (rule filter_cong) simp_all
    then show ?thesis by (simp add: filter_map comp_def)
  qed
  also have "\<dots> = [step * n + k]" using assms by (simp add: filter_eq_upt)
  finally have blk: "filter (\<lambda>p. p mod step = k) (map (\<lambda>r. step * n + r) [0..<step]) = [step * n + k]" .
  have "stride_positions k step (step * Suc n) =
      stride_positions k step (step * n) @ [step * n + k]"
    unfolding stride_positions_def split by (simp only: filter_append stride_cond[OF assms] blk)
  then show ?case using Suc by simp
qed

lemma assign_stride_checked_fits:
  assumes "k < step" "length xs = step * n" "length vals = n"
  shows "assign_stride_checked k step xs vals = Inr (assign_stride k step xs vals)"
  using assms by (simp add: assign_stride_checked_def stride_positions_block)

lemma nth_assign_stride:
  "p < length xs \<Longrightarrow> k < step \<Longrightarrow>
   assign_stride k step xs vals ! p = (if p mod step = k then vals ! (p div step) else xs ! p)"
proof -
  assume p: "p < length xs" and k: "k < step"
  have "(k \<le> p \<and> (p - k) mod step = 0) = (p mod step = k)"
  proof
    assume a: "k \<le> p \<and> (p - k) mod step = 0"
    then obtain q where "p - k = step * q" by (auto simp: mod_eq_0_iff_dvd)
    with a have "p = k + step * q" by simp
    with k show "p mod step = k" by simp
  next
    assume a: "p mod step = k"
    then have "k \<le> p" using mod_less_eq_dividend[of p step] by simp
    moreover have "(p - k) mod step = 0" using a
      by (metis minus_mod_eq_mult_div mod_mult_self1_is_0)
    ultimately show "k \<le> p \<and> (p - k) mod step = 0" by simp
  qed
  moreover have "p mod step = k \<Longrightarrow> (p - k) div step = p div step"
    using k by (metis div_mult_self1_is_m minus_mod_eq_mult_div less_nat_zero_code neq0_conv mult.commute)
  ultimately show ?thesis using p by (auto simp: assign_stride_def)
qed

lemma length_assign_stride [simp]: "length (assign_stride k step xs vals) = length xs"
  by (simp add: assign_stride_def)

lemma nth_concat_uniform:
  "i < n \<Longrightarrow> j < m \<Longrightarrow> concat (map (\<lambda>i. map (f i) [0..<m]) [0..<n]) ! (i * m + j) = f i j"
proof (induction n arbitrary: i)
  case 0 then show ?case by simp
next
  case (Suc n)
  have len: "length (concat (map (\<lambda>i. map (f i) [0..<m]) [0..<n])) = n * m"
    by (induction n) auto
  show ?case
  proof (cases "i < n")
    case True
    then have "i * m + j < n * m" using Suc.prems(2)
      by (metis add.commute mult_Suc less_le_trans add_less_cancel_left mult_le_mono1 Suc_leI nat_add_left_cancel_less)
    with True Suc show ?thesis by (simp add: nth_append len)
  next
    case False
    with Suc.prems have "i = n" by simp
    with Suc.prems show ?thesis by (simp add: nth_append len)
  qed
qed


lemma index_grid_rows:
  "reshape2 nu nv (arange (nu * nv)) = map (\<lambda>i. map (\<lambda>j. i * nv + j) [0..<nv]) [0..<nu]"
proof -
  have "take nv (drop (i * nv) [0..<nu * nv]) = map (\<lambda>j. i * nv + j) [0..<nv]" if "i < nu" for i
  proof -
    have "i * nv + nv \<le> nu * nv" using that
      by (metis Suc_leI mult_Suc mult_le_mono1 add.commute)
    then have "take nv (drop (i * nv) [0..<nu * nv]) = [i * nv..<i * nv + nv]"
      by (simp add: take_upt drop_upt)
    also have "\<dots> = map (\<lambda>j. i * nv + j) [0..<nv]"
      by (simp add: map_add_upt add.commute)
    finally show ?thesis .
  qed
  then show ?thesis by (simp add: reshape2_def arange_def)
qed

lemma butlast_upt0: "butlast [0..<n] = [0..<n - 1]"
  by (cases n) simp_all

lemma tl_map_upt0: "tl (map f [0..<n]) = map (\<lambda>i. f (Suc i)) [0..<n - 1]"
proof (cases n)
  case 0 then show ?thesis by simp
next
  case (Suc m)
  have "map f [0..<Suc m] = f 0 # map (\<lambda>i. f (Suc i)) [0..<m]"
    by (simp add: upt_conv_Cons map_Suc_upt[symmetric] del: upt_Suc)
  with Suc show ?thesis by simp
qed

lemma top_left_grid:
  "top_left (reshape2 nu nv (arange (nu * nv))) =
     concat (map (\<lambda>i. map (\<lambda>j. i * nv + j) [0..<nv - 1]) [0..<nu - 1])"
  by (simp add: top_left_def index_grid_rows map_butlast[symmetric] butlast_upt0 comp_def)

lemma bottom_left_grid:
  "bottom_left (reshape2 nu nv (arange (nu * nv))) =
     concat (map (\<lambda>i. map (\<lambda>j. Suc i * nv + j) [0..<nv - 1]) [0..<nu - 1])"
  by (simp add: bottom_left_def index_grid_rows tl_map_upt0 map_butlast[symmetric] butlast_upt0 comp_def)

lemma top_right_grid:
  "top_right (reshape2 nu nv (arange (nu * nv))) =
     concat (map (\<lambda>i. map (\<lambda>j. i * nv + Suc j) [0..<nv - 1]) [0..<nu - 1])"
  by (simp add: top_right_def index_grid_rows tl_map_upt0 map_butlast[symmetric] butlast_upt0 comp_def)

lemma bottom_right_grid:
  "bottom_right (reshape2 nu nv (arange (nu * nv))) =
     concat (map (\<lambda>i. map (\<lambda>j. Suc i * nv + Suc j) [0..<nv - 1]) [0..<nu - 1])"
  by (simp add: bottom_right_def index_grid_rows tl_map_upt0 comp_def)

lemma length_concat_map2:
  "length (concat (map (\<lambda>x. map (f x) ys) xs)) = length xs * length ys"
  by (induction xs) auto

text \<open>The six strided assignments of \<open>compute_triangle_indices\<close> always fit: each corner
  slice has one entry for each position it is assigned to, so NumPy's shape check cannot
  fail there and the assignment is the plain one.\<close>

lemma strided_assignments_fit:
  assumes "k < 6" "length xs = 6 * (nu - 1) * (nv - 1)"
    and "c \<in> {top_left (reshape2 nu nv (arange (nu * nv))), bottom_left (reshape2 nu nv (arange (nu * nv))),
               top_right (reshape2 nu nv (arange (nu * nv))), bottom_right (reshape2 nu nv (arange (nu * nv)))}"
  shows "assign_stride_checked k 6 xs c = Inr (assign_stride k 6 xs c)"
proof -
  have "length c = (nu - 1) * (nv - 1)"
    using assms(3)
    by (auto simp: top_left_grid bottom_left_grid top_right_grid bottom_right_grid length_concat_map2)
  then show ?thesis
    using assms(1,2) by (intro assign_stride_checked_fits[where n = "(nu - 1) * (nv - 1)"]) (simp_all add: mult.assoc)
qed

lemma length_compute_triangle_indices:
  "length (compute_triangle_indices (nu, nv)) = (if nu = 0 \<or> nv = 0 then 0 else 6 * (nu - 1) * (nv - 1))"
  by (simp add: compute_triangle_indices_def zeros_def Let_def)

lemma nth_indices_cell:
  assumes c: "c < (nu - 1) * (nv - 1)" and r: "r < 6" and nz: "nu \<noteq> 0" "nv \<noteq> 0"
  shows "compute_triangle_indices (nu, nv) ! (6 * c + r) =
     [top_left (reshape2 nu nv (arange (nu * nv))) ! c,
      bottom_left (reshape2 nu nv (arange (nu * nv))) ! c,
      top_right (reshape2 nu nv (arange (nu * nv))) ! c,
      top_right (reshape2 nu nv (arange (nu * nv))) ! c,
      bottom_left (reshape2 nu nv (arange (nu * nv))) ! c,
      bottom_right (reshape2 nu nv (arange (nu * nv))) ! c] ! r"
proof -
  define p where "p = 6 * c + r"
  have p: "p < 6 * (nu - 1) * (nv - 1)" using c r by (simp add: p_def)
  have m: "p mod 6 = r" "p div 6 = c" using r by (simp_all add: p_def)
  have st: "assign_stride k 6 xs vals ! p = (if r = k then vals ! c else xs ! p)"
    if "length xs = 6 * (nu - 1) * (nv - 1)" "k < 6" for k and xs vals :: "nat list"
    using nth_assign_stride[of p xs k 6 vals] p that by (simp add: m)
  have cases: "r = 0 \<or> r = 1 \<or> r = 2 \<or> r = 3 \<or> r = 4 \<or> r = 5" using r by arith
  have "compute_triangle_indices (nu, nv) ! p =
     [top_left (reshape2 nu nv (arange (nu * nv))) ! c,
      bottom_left (reshape2 nu nv (arange (nu * nv))) ! c,
      top_right (reshape2 nu nv (arange (nu * nv))) ! c,
      top_right (reshape2 nu nv (arange (nu * nv))) ! c,
      bottom_left (reshape2 nu nv (arange (nu * nv))) ! c,
      bottom_right (reshape2 nu nv (arange (nu * nv))) ! c] ! r"
    using cases nz
    by (elim disjE) (simp_all add: compute_triangle_indices_def Let_def zeros_def st)
  then show ?thesis by (simp add: p_def)
qed

lemma nth_compute_triangle_indices:
  assumes "i < nu - 1" "j < nv - 1" "r < 6"
  shows "compute_triangle_indices (nu, nv) ! (6 * (i * (nv - 1) + j) + r) =
     [i * nv + j, Suc i * nv + j, i * nv + Suc j, i * nv + Suc j, Suc i * nv + j, Suc i * nv + Suc j] ! r"
proof -
  have c: "i * (nv - 1) + j < (nu - 1) * (nv - 1)"
  proof -
    have "Suc i \<le> nu - 1" using assms(1) by simp
    then have "Suc i * (nv - 1) \<le> (nu - 1) * (nv - 1)" by (rule mult_le_mono1)
    then show ?thesis using assms(2) by simp
  qed
  have nz: "nu \<noteq> 0" "nv \<noteq> 0" using assms by auto
  show ?thesis
    unfolding nth_indices_cell[OF c assms(3) nz]
      top_left_grid bottom_left_grid top_right_grid bottom_right_grid
      nth_concat_uniform[OF assms(1) assms(2)] ..
qed

text \<open>
  Claim C3. For every resolution \<open>(nu, nv)\<close> with \<open>nu \<ge> 1\<close> and \<open>nv \<ge> 1\<close>,
  \<open>compute_triangle_indices\<close> produces an index array of length \<open>6 * (nu - 1) * (nv - 1)\<close>;
  the six indices of the cell \<open>(i, j)\<close>, which is cell number \<open>i * (nv - 1) + j\<close>, are
  (TL, BL, TR, TR, BL, BR) with TL \<open>= i * nv + j\<close>, bottom one step along \<open>u\<close> (\<open>+ nv\<close>) and
  right one step along \<open>v\<close> (\<open>+ 1\<close>); and the array is empty when \<open>nu = 0\<close> or \<open>nv = 0\<close>.
\<close>

theorem compute_triangle_indices_spec:
  "(nu = 0 \<or> nv = 0 \<longrightarrow> compute_triangle_indices (nu, nv) = []) \<and>
   (1 \<le> nu \<and> 1 \<le> nv \<longrightarrow>
      length (compute_triangle_indices (nu, nv)) = 6 * (nu - 1) * (nv - 1) \<and>
      (\<forall>i<nu - 1. \<forall>j<nv - 1.
         take 6 (drop (6 * (i * (nv - 1) + j)) (compute_triangle_indices (nu, nv))) =
           [i * nv + j, (i + 1) * nv + j, i * nv + (j + 1),
            i * nv + (j + 1), (i + 1) * nv + j, (i + 1) * nv + (j + 1)]))"
proof (intro conjI impI allI)
  assume "nu = 0 \<or> nv = 0"
  then show "compute_triangle_indices (nu, nv) = []"
    by (auto simp: compute_triangle_indices_def zeros_def)
next
  assume "1 \<le> nu \<and> 1 \<le> nv"
  then show "length (compute_triangle_indices (nu, nv)) = 6 * (nu - 1) * (nv - 1)"
    by (simp add: length_compute_triangle_indices)
next
  fix i j
  assume ij: "i < nu - 1" "j < nv - 1"
  let ?xs = "compute_triangle_indices (nu, nv)"
  let ?c = "i * (nv - 1) + j"
  have "Suc i \<le> nu - 1" using ij(1) by simp
  then have "Suc i * (nv - 1) \<le> (nu - 1) * (nv - 1)" by (rule mult_le_mono1)
  then have "Suc ?c \<le> (nu - 1) * (nv - 1)" using ij(2) by simp
  then have "6 * Suc ?c \<le> 6 * ((nu - 1) * (nv - 1))" by (rule mult_le_mono2)
  moreover have "\<not> (nu = 0 \<or> nv = 0)" using ij by auto
  ultimately have c: "6 * ?c + 6 \<le> length ?xs"
    by (simp only: length_compute_triangle_indices if_False mult_Suc_right mult.assoc add.commute)
  have "take 6 (drop (6 * ?c) ?xs) = map (\<lambda>r. ?xs ! (6 * ?c + r)) [0..<6]"
    using c by (intro nth_equalityI) auto
  also have "\<dots> = map (\<lambda>r. [i * nv + j, Suc i * nv + j, i * nv + Suc j, i * nv + Suc j,
        Suc i * nv + j, Suc i * nv + Suc j] ! r) [0..<6]"
    using nth_compute_triangle_indices[OF ij] by simp
  also have "\<dots> = [i * nv + j, (i + 1) * nv + j, i * nv + (j + 1),
            i * nv + (j + 1), (i + 1) * nv + j, (i + 1) * nv + (j + 1)]"
    by (simp add: upt_conv_Cons)
  finally show "take 6 (drop (6 * ?c) ?xs) = [i * nv + j, (i + 1) * nv + j, i * nv + (j + 1),
            i * nv + (j + 1), (i + 1) * nv + j, (i + 1) * nv + (j + 1)]" .
qed

theorem compute_triangle_indices_spec_witness:
  "length (compute_triangle_indices (3, 3)) = 24 \<and>
   take 6 (drop 18 (compute_triangle_indices (3, 3))) = [4, 7, 5, 5, 7, 8]"
proof -
  have h: "(1::nat) \<le> 3 \<and> (1::nat) \<le> 3" by simp
  note t = compute_triangle_indices_spec[of 3 3, THEN conjunct2, rule_format, OF h]
  have "(1::nat) < 3 - 1" by simp
  from t[THEN conjunct2, rule_format, OF this this] t[THEN conjunct1]
  show ?thesis by simp
qed


subsection \<open>The default parametric function\<close>

text \<open>
  Claim C10. A surface constructed without a parametric function (\<open>uv_func\<close> omitted or
  \<open>None\<close>) has the flat plane as its \<open>uv_func\<close>: \<open>uv_func(u, v)\<close> is \<open>(u, v, 0.0)\<close> for
  every \<open>u\<close> and \<open>v\<close>.
\<close>

theorem uv_func_default:
  "OpenGLSurface None u_range_arg v_range_arg resolution_arg axis_arg epsilon_arg st = Inr (s, st')
   \<Longrightarrow> uv_func s u v = (u, v, 0)"
  by (auto simp: OpenGLSurface_def OpenGLSurface_init_def OpenGLMobject_init_def init_points_def
      alloc_def uv_func_def Let_def split: prod.splits if_splits)

theorem uv_func_default_witness:
  "uv_func (fst (projr (OpenGLSurface None None None (Some (2, 2)) 1 (1 / 100000)
      \<lparr>buffers = (\<lambda>a. []), next_free = 0\<rparr>))) 2 3 = (2, 3, 0)"
proof -
  have "\<exists>s st'. OpenGLSurface None None None (Some (2, 2)) 1 (1 / 100000)
      \<lparr>buffers = (\<lambda>a. []), next_free = 0\<rparr> = Inr (s, st')"
    by (simp add: OpenGLSurface_def OpenGLSurface_init_def OpenGLMobject_init_def init_points_def
        alloc_def Let_def)
  then obtain s st' where h: "OpenGLSurface None None None (Some (2, 2)) 1 (1 / 100000)
      \<lparr>buffers = (\<lambda>a. []), next_free = 0\<rparr> = Inr (s, st')" by blast
  from uv_func_default[OF h, of 2 3] h show ?thesis by simp
qed

subsection \<open>Texture coordinates\<close>

lemma nth_concat_map2:
  "i < length xs \<Longrightarrow> j < length ys \<Longrightarrow>
   concat (map (\<lambda>x. map (f x) ys) xs) ! (i * length ys + j) = f (xs ! i) (ys ! j)"
proof (induction xs arbitrary: i)
  case Nil then show ?case by simp
next
  case (Cons x xs)
  show ?case
  proof (cases i)
    case 0
    with Cons.prems show ?thesis by (simp add: nth_append)
  next
    case (Suc k)
    with Cons.prems have "k < length xs" by simp
    from Cons.IH[OF this Cons.prems(2)] Suc show ?thesis
      by (simp add: nth_append add.assoc)
  qed
qed

lemma length_linspace: "length (linspace a b n) = n"
  by (simp add: linspace_def)

lemma nth_linspace:
  "2 \<le> n \<Longrightarrow> i < n \<Longrightarrow> linspace a b n ! i = a + real i * ((b - a) / real (n - 1))"
  by (simp add: linspace_def)

text \<open>
  Claim C4. For a textured surface over a base surface with resolution \<open>(nu, nv)\<close>,
  \<open>nu \<ge> 2\<close> and \<open>nv \<ge> 2\<close>, the computed UV array has \<open>nu * nv\<close> rows of two
  entries, is stored row-major with \<open>u\<close> outermost, and its entry at grid index \<open>(i, j)\<close> is
  \<open>(i / (nu - 1), 1 - j / (nv - 1))\<close>; for \<open>nu = nv = 3\<close> the entry at \<open>(0, 0)\<close> is
  \<open>(0, 1)\<close> and the entry at \<open>(2, 2)\<close> is \<open>(1, 0)\<close>.
\<close>

theorem im_coords_grid:
  assumes res: "resolution (uv_surface s) = (nu, nv)" and nu: "2 \<le> nu" and nv: "2 \<le> nv"
  shows "\<exists>s' st'. init_points_textured s st = Inr (s', st') \<and>
      length (im_coords s') = nu * nv \<and>
      (\<forall>i<nu. \<forall>j<nv. im_coords s' ! (i * nv + j) = (real i / real (nu - 1), 1 - real j / real (nv - 1)))"
proof -
  let ?ic = "concat (map (\<lambda>u. map (\<lambda>v. (u, v)) (linspace 1 0 nv)) (linspace 0 1 nu))"
  have 1: "init_points_textured s st = Inr (s\<lparr>im_coords := ?ic\<rparr>, set_points (get_points st (uv_surface s)) s st)"
    by (simp add: init_points_textured_def res)
  have 2: "length ?ic = nu * nv" by (simp add: length_concat_map2 length_linspace)
  have 3: "?ic ! (i * nv + j) = (real i / real (nu - 1), 1 - real j / real (nv - 1))"
    if "i < nu" "j < nv" for i j
  proof -
    have "?ic ! (i * length (linspace 1 0 nv) + j) = (linspace 0 1 nu ! i, linspace 1 0 nv ! j)"
      using that by (intro nth_concat_map2) (simp_all add: length_linspace)
    then show ?thesis using that nu nv by (simp add: length_linspace nth_linspace)
  qed
  show ?thesis using 1 2 3 by simp
qed

theorem im_coords_grid_witness:
  "im_coords (fst (projr (init_points_textured
      \<lparr>passed_uv_func = None, u_range = (0, 1), v_range = (0, 1), resolution = (3, 3),
       prefered_creation_axis = 1, epsilon = 1 / 100000, points = 1, triangle_indices = [],
       uv_surface = \<lparr>passed_uv_func = None, u_range = (0, 1), v_range = (0, 1), resolution = (3, 3),
          prefered_creation_axis = 1, epsilon = 1 / 100000, points = 0, triangle_indices = []\<rparr>,
       im_coords = []\<rparr> \<lparr>buffers = (\<lambda>a. []), next_free = 2\<rparr>))) ! 0 = (0, 1) \<and>
   im_coords (fst (projr (init_points_textured
      \<lparr>passed_uv_func = None, u_range = (0, 1), v_range = (0, 1), resolution = (3, 3),
       prefered_creation_axis = 1, epsilon = 1 / 100000, points = 1, triangle_indices = [],
       uv_surface = \<lparr>passed_uv_func = None, u_range = (0, 1), v_range = (0, 1), resolution = (3, 3),
          prefered_creation_axis = 1, epsilon = 1 / 100000, points = 0, triangle_indices = []\<rparr>,
       im_coords = []\<rparr> \<lparr>buffers = (\<lambda>a. []), next_free = 2\<rparr>))) ! 8 = (1, 0)"
  (is "im_coords (fst (projr (init_points_textured ?s ?st))) ! 0 = _ \<and> _")
proof -
  have r: "resolution (uv_surface ?s) = (3, 3)" by simp
  have n: "(2::nat) \<le> 3" by simp
  from im_coords_grid[OF r n n, of ?st] obtain s' st' where
    h: "init_points_textured ?s ?st = Inr (s', st')" and
    a: "\<forall>i<3. \<forall>j<3. im_coords s' ! (i * 3 + j) = (real i / real (3 - 1 :: nat), 1 - real j / real (3 - 1 :: nat))"
    by blast
  from a[rule_format, of 2 2] have "im_coords s' ! 8 = (1, 0)" by simp
  moreover from a[rule_format, of 0 0] have "im_coords s' ! 0 = (0, 1)" by simp
  ultimately show ?thesis using h by simp
qed

subsection \<open>The logarithmic scale\<close>

text \<open>
  Claim C7, as stated for every base, fails: with the base \<open>-2\<close> the inverse at the positive
  value 5 raises the domain error of \<open>math.log\<close>, and with the base 1 it raises a division
  by zero instead of returning a logarithm. (The library's operations are instantiated with
  the exact ones; the first error does not depend on them.)
\<close>

theorem LogBase_inverse_function_counterexample:
  "LogBase_inverse_function ln (/) \<lparr>base = - 2, custom_labels = True\<rparr> (PyFloat 5) = Inl ValueError \<and>
   \<not> (5::real) \<le> 0 \<and>
   LogBase_inverse_function ln (/) \<lparr>base = 1, custom_labels = True\<rparr> (PyFloat 5) = Inl ZeroDivisionError"
  by (simp add: LogBase_inverse_function_def math_log_def)

text \<open>The round trip \<open>inverse_function(function(x)) = x\<close> is not a property of the code for
  every \<open>x\<close>: at base 10 and \<open>x = 400.5\<close> the power overflows and \<open>function\<close> raises, whatever
  the rounding; and where it returns, the result is rounded.\<close>

lemma overflow_bound_le: "overflow_bound \<le> (10::real) powr (801 / 2)"
proof -
  have "overflow_bound \<le> (2::real) ^ 1024" by (simp add: overflow_bound_def)
  also have "(2::real) ^ 1024 \<le> 2 ^ 1200" by (rule power_increasing) simp_all
  also have "(2::real) ^ 1200 = (2 ^ 3) ^ 400" by (simp only: power_mult[symmetric]) simp
  also have "\<dots> \<le> (10::real) ^ 400" by (rule power_mono) simp_all
  also have "(10::real) ^ 400 = 10 powr 400" by (simp add: powr_realpow[symmetric])
  also have "\<dots> \<le> (10::real) powr (801 / 2)" by (rule powr_mono) simp_all
  finally show ?thesis .
qed

lemma LogBase_function_overflow:
  "LogBase_function round_double \<lparr>base = 10, custom_labels = True\<rparr> (801 / 2) = Inl OverflowError"
  using overflow_bound_le by (simp add: LogBase_function_def)

text \<open>
  Claim C7, amended. For every base \<open>b > 0\<close> whose logarithm is not zero (every positive base
  but 1) and every value \<open>v\<close>, \<open>LogBase(b).inverse_function(v)\<close> raises the domain error
  (Python's \<open>ValueError\<close>) if and only if \<open>v \<le> 0\<close>, and for \<open>v > 0\<close> it returns the
  floating-point logarithm of \<open>v\<close> to the base \<open>b\<close>, \<open>log(v) / log(b)\<close> as the library computes
  it, without clamping; so \<open>inverse_function(0)\<close> raises. (No exact round trip is claimed.)
\<close>

theorem LogBase_inverse_function_spec:
  assumes "0 < base self" and "float_log (base self) \<noteq> 0"
  shows "(LogBase_inverse_function float_log float_div self (PyFloat v) = Inl ValueError \<longleftrightarrow> v \<le> 0) \<and>
     (0 < v \<longrightarrow> LogBase_inverse_function float_log float_div self (PyFloat v) =
        Inr (float_div (float_log v) (float_log (base self))))"
  using assms by (simp add: LogBase_inverse_function_def math_log_def)

theorem LogBase_inverse_function_spec_witness:
  "LogBase_inverse_function ln (/) \<lparr>base = 10, custom_labels = True\<rparr> (PyFloat 0) = Inl ValueError \<and>
   LogBase_inverse_function ln (/) \<lparr>base = 10, custom_labels = True\<rparr> (PyFloat 1000) =
     Inr (ln 1000 / ln 10)"
proof -
  have h: "0 < base \<lparr>base = 10, custom_labels = True\<rparr>"
    "ln (base \<lparr>base = 10, custom_labels = True\<rparr>) \<noteq> 0"
    by simp_all
  from LogBase_inverse_function_spec[where float_log = ln and float_div = "(/)", OF h, of 0]
    LogBase_inverse_function_spec[where float_log = ln and float_div = "(/)", OF h, of 1000]
  show ?thesis by simp
qed

subsection \<open>Surface groups\<close>

text \<open>
  Claim C8. Every surface group has its resolution fixed at \<open>(0, 0)\<close> and owns no geometry
  of its own. The constructor sets the resolution to \<open>(0, 0)\<close> first, as the claim says, and
  then loses it: \<open>OpenGLSurface.__init__\<close> runs next without the resolution and writes its
  own default. Evaluated at the construction without arguments, \<open>OpenGLSurfaceGroup()\<close>, the
  group has the resolution \<open>(101, 101)\<close> and the 60000 triangle indices of that grid.
\<close>

theorem OpenGLSurfaceGroup_resolution_overwritten:
  "resolution (fst (projr (OpenGLSurfaceGroup [] None
      \<lparr>kw_uv_func = None, kw_u_range = None, kw_v_range = None,
       kw_prefered_creation_axis = None, kw_epsilon = None\<rparr>
      \<lparr>buffers = (\<lambda>a. []), next_free = 0\<rparr>))) = (101, 101) \<and>
   length (triangle_indices (fst (projr (OpenGLSurfaceGroup [] None
      \<lparr>kw_uv_func = None, kw_u_range = None, kw_v_range = None,
       kw_prefered_creation_axis = None, kw_epsilon = None\<rparr>
      \<lparr>buffers = (\<lambda>a. []), next_free = 0\<rparr>)))) = 60000"
  by (simp add: OpenGLSurfaceGroup_def OpenGLSurface_init_def OpenGLMobject_init_def
      init_points_group_def alloc_def new_surface_group_def Let_def
      length_compute_triangle_indices)

text \<open>The same holds for every construction that returns, whatever resolution is passed;
  the group's own point set is empty and it holds the children it was given. A \<open>uv_func\<close>
  keyword makes the construction fail.\<close>

lemma OpenGLSurfaceGroup_returns:
  assumes "kw_uv_func kwargs = None"
  shows "\<exists>g st'. OpenGLSurfaceGroup parametric_surfaces resolution_arg kwargs st = Inr (g, st') \<and>
     resolution g = (101, 101) \<and> get_points st' g = [] \<and> submobjects g = parametric_surfaces"
  using assms
  by (simp add: OpenGLSurfaceGroup_def OpenGLSurface_init_def OpenGLMobject_init_def
      init_points_group_def alloc_def new_surface_group_def Let_def get_points_def)

lemma OpenGLSurfaceGroup_uv_func_keyword:
  "kw_uv_func kwargs \<noteq> None \<Longrightarrow>
   OpenGLSurfaceGroup parametric_surfaces resolution_arg kwargs st = Inl TypeError"
  by (simp add: OpenGLSurfaceGroup_def Let_def)

subsection \<open>Partial reveal\<close>

lemma reveal_entry_cong:
  assumes "line li = line' li" "line (li + 1) = line' (li + 1)" "line ui = line' ui"
    "line (ui + 1) = line' (ui + 1)" "line k = line' k"
  shows "reveal_entry interp line li lr ui ur k = reveal_entry interp line' li lr ui ur k"
  using assms by (simp add: reveal_entry_def)

lemma py_index_nat: "k < n \<Longrightarrow> py_index n (int k) = Inr k"
  by (simp add: py_index_def)

lemma py_index_nat_Suc: "k + 1 < n \<Longrightarrow> py_index n (int k + 1) = Inr (k + 1)"
  using py_index_nat[of "k + 1" n] by (simp add: add.commute)

lemma slice_bound_nat: "k \<le> n \<Longrightarrow> slice_bound n (int k) = k"
  by (simp add: slice_bound_def)

lemma slice_bound_nat_Suc: "k + 1 \<le> n \<Longrightarrow> slice_bound n (int k + 1) = k + 1"
  using slice_bound_nat[of "k + 1" n] by (simp add: add.commute)

lemma collapse_line_nat:
  assumes "li \<le> ui" "ui + 1 < length xs"
  shows "collapse_line interp xs (int li) lr (int ui) ur =
     Inr (map (reveal_entry interp (\<lambda>k. xs ! k) li lr ui ur) [0..<length xs])"
proof -
  let ?n = "length xs"
  let ?lower = "interp (xs ! li) (xs ! (li + 1)) lr"
  let ?ys = "map (\<lambda>i. if i < li then ?lower else xs ! i) [0..<?n]"
  have ys: "?ys ! ui = xs ! ui" "?ys ! (ui + 1) = xs ! (ui + 1)"
    using assms by simp_all
  have "collapse_line interp xs (int li) lr (int ui) ur =
     Inr (map (\<lambda>i. if ui + 1 \<le> i then interp (?ys ! ui) (?ys ! (ui + 1)) ur else ?ys ! i) [0..<?n])"
    using assms
    by (simp add: collapse_line_def Let_def py_index_nat py_index_nat_Suc slice_bound_nat
        slice_bound_nat_Suc del: upt_Suc)
  also have "map (\<lambda>i. if ui + 1 \<le> i then interp (?ys ! ui) (?ys ! (ui + 1)) ur else ?ys ! i) [0..<?n]
     = map (reveal_entry interp (\<lambda>k. xs ! k) li lr ui ur) [0..<?n]"
    unfolding ys using assms by (auto simp: reveal_entry_def)
  finally show ?thesis .
qed

lemma collect_map_Inr: "collect (map (\<lambda>x. Inr (f x)) xs) = Inr (map f xs)"
  by (induction xs) auto

lemma length_reshape2: "length (reshape2 nu nv xs) = nu"
  by (simp add: reshape2_def)

lemma mult_add_less: "i < nu \<Longrightarrow> j < nv \<Longrightarrow> i * nv + j < nu * (nv::nat)"
proof -
  assume a: "i < nu" "j < nv"
  then have "Suc i \<le> nu" by simp
  then have "Suc i * nv \<le> nu * nv" by (rule mult_le_mono1)
  with a show ?thesis by simp
qed

lemma reshape2_row:
  assumes "length xs = nu * nv" "i < nu"
  shows "length (reshape2 nu nv xs ! i) = nv" "j < nv \<Longrightarrow> reshape2 nu nv xs ! i ! j = xs ! (i * nv + j)"
proof -
  have le: "i * nv + nv \<le> nu * nv"
    using assms(2) by (metis Suc_leI mult_Suc mult_le_mono1 add.commute)
  show "length (reshape2 nu nv xs ! i) = nv"
    using assms le by (simp add: reshape2_def)
  show "j < nv \<Longrightarrow> reshape2 nu nv xs ! i ! j = xs ! (i * nv + j)"
    using assms le by (simp add: reshape2_def)
qed

lemma nth_concat_rows:
  assumes "\<forall>r \<in> set g. length r = m" "i < length g" "j < m"
  shows "concat g ! (i * m + j) = g ! i ! j"
  using assms
proof (induction g arbitrary: i)
  case Nil then show ?case by simp
next
  case (Cons r g)
  show ?case
  proof (cases i)
    case 0 with Cons.prems show ?thesis by (simp add: nth_append)
  next
    case (Suc k)
    with Cons.prems have "concat g ! (k * m + j) = g ! k ! j" by (intro Cons.IH) auto
    with Suc Cons.prems show ?thesis by (simp add: nth_append add.assoc)
  qed
qed

lemma length_concat_rows:
  "\<forall>r \<in> set g. length r = m \<Longrightarrow> length (concat g) = length g * m"
  by (induction g) auto

lemma nth_interpolate_rows:
  "j < length r1 \<Longrightarrow> j < length r2 \<Longrightarrow>
   interpolate_rows interp r1 r2 alpha ! j = interp (r1 ! j) (r2 ! j) alpha"
  by (simp add: interpolate_rows_def)

lemma length_interpolate_rows:
  "length (interpolate_rows interp r1 r2 alpha) = min (length r1) (length r2)"
  by (simp add: interpolate_rows_def)

lemma reveal_rows:
  assumes len: "length pts = nu * nv" and idx: "li \<le> ui" "ui + 1 < nu" and i: "i < nu"
  shows "length (reveal_entry (interpolate_rows interp) (\<lambda>k. reshape2 nu nv pts ! k) li lr ui ur i) = nv"
    and "j < nv \<Longrightarrow>
      reveal_entry (interpolate_rows interp) (\<lambda>k. reshape2 nu nv pts ! k) li lr ui ur i ! j =
      reveal_entry interp (\<lambda>k. pts ! (k * nv + j)) li lr ui ur i"
proof -
  have b: "li < nu" "li + 1 < nu" "ui < nu" using idx by simp_all
  note rr = reshape2_row[OF len]
  show "length (reveal_entry (interpolate_rows interp) (\<lambda>k. reshape2 nu nv pts ! k) li lr ui ur i) = nv"
    using b idx i by (simp add: reveal_entry_def length_interpolate_rows rr(1))
  show "reveal_entry (interpolate_rows interp) (\<lambda>k. reshape2 nu nv pts ! k) li lr ui ur i ! j =
      reveal_entry interp (\<lambda>k. pts ! (k * nv + j)) li lr ui ur i" if "j < nv"
    using b idx i that by (simp add: reveal_entry_def nth_interpolate_rows rr)
qed

lemma gppa_axis0:
  assumes len: "length pts = nu * nv" and ne: "pts \<noteq> []"
    and lo: "ii 0 (int nu - 1) a = (int li, lr)" and hi: "ii 0 (int nu - 1) b = (int ui, ur)"
    and idx: "li \<le> ui" "ui + 1 < nu"
  shows "get_partial_points_array ii interp pts a b (nu, nv, w) 0 =
     Inr (concat (map (reveal_entry (interpolate_rows interp) (\<lambda>k. reshape2 nu nv pts ! k) li lr ui ur)
            [0..<nu]))"
proof -
  have "collapse_line (interpolate_rows interp) (reshape2 nu nv pts) (int li) lr (int ui) ur =
      Inr (map (reveal_entry (interpolate_rows interp) (\<lambda>k. reshape2 nu nv pts ! k) li lr ui ur)
            [0..<nu])"
    using collapse_line_nat[of li ui "reshape2 nu nv pts" "interpolate_rows interp" lr ur] idx
    by (simp add: length_reshape2)
  moreover have "nu \<noteq> 0" "nv \<noteq> 0"
    using len ne by (metis length_0_conv mult_0, metis length_0_conv mult_0_right)
  ultimately show ?thesis
    using len ne lo hi by (simp add: get_partial_points_array_def py_index_def Let_def)
qed

lemma gppa_axis1:
  assumes len: "length pts = nu * nv" and ne: "pts \<noteq> []"
    and lo: "ii 0 (int nv - 1) a = (int li, lr)" and hi: "ii 0 (int nv - 1) b = (int ui, ur)"
    and idx: "li \<le> ui" "ui + 1 < nv"
  shows "get_partial_points_array ii interp pts a b (nu, nv, w) 1 =
     Inr (concat (map (\<lambda>row. map (reveal_entry interp (\<lambda>k. row ! k) li lr ui ur) [0..<nv])
            (reshape2 nu nv pts)))"
proof -
  have rows: "length row = nv" if "row \<in> set (reshape2 nu nv pts)" for row
  proof -
    from that obtain i where "i < nu" "row = reshape2 nu nv pts ! i"
      by (auto simp: in_set_conv_nth length_reshape2)
    then show ?thesis using reshape2_row(1)[OF len] by simp
  qed
  have "map (\<lambda>row. collapse_line interp row (int li) lr (int ui) ur) (reshape2 nu nv pts) =
      map (\<lambda>row. Inr (map (reveal_entry interp (\<lambda>k. row ! k) li lr ui ur) [0..<nv])) (reshape2 nu nv pts)"
  proof (rule map_cong[OF refl])
    fix row assume "row \<in> set (reshape2 nu nv pts)"
    then have l: "length row = nv" by (rule rows)
    show "collapse_line interp row (int li) lr (int ui) ur =
        Inr (map (reveal_entry interp (\<lambda>k. row ! k) li lr ui ur) [0..<nv])"
      using collapse_line_nat[of li ui row interp lr ur] idx l by simp
  qed
  then have "collect (map (\<lambda>row. collapse_line interp row (int li) lr (int ui) ur) (reshape2 nu nv pts)) =
      Inr (map (\<lambda>row. map (reveal_entry interp (\<lambda>k. row ! k) li lr ui ur) [0..<nv]) (reshape2 nu nv pts))"
    by (simp only: collect_map_Inr)
  moreover have "nu \<noteq> 0" "nv \<noteq> 0"
    using len ne by (metis length_0_conv mult_0, metis length_0_conv mult_0_right)
  ultimately show ?thesis
    using len ne lo hi by (simp add: get_partial_points_array_def py_index_def Let_def)
qed

lemma gppa_reveal:
  assumes len: "length pts = nu * nv" and ax: "axis = 0 \<or> axis = 1"
    and lo: "ii 0 (int (if axis = 0 then nu else nv) - 1) a = (int li, lr)"
    and hi: "ii 0 (int (if axis = 0 then nu else nv) - 1) b = (int ui, ur)"
    and idx: "li \<le> ui" "ui + 1 < (if axis = 0 then nu else nv)"
  shows "\<exists>ps. get_partial_points_array ii interp pts a b (nu, nv, w) axis = Inr ps \<and>
     length ps = nu * nv \<and>
     (\<forall>i<nu. \<forall>j<nv. ps ! (i * nv + j) =
        reveal_entry interp (\<lambda>k. pts ! (if axis = 0 then k * nv + j else i * nv + k)) li lr ui ur
          (if axis = 0 then i else j))"
proof (cases "pts = []")
  case True
  then have "nu * nv = 0" using len by simp
  then have "\<forall>i<nu. \<forall>j<nv. False" by auto
  with True len show ?thesis by (auto simp: get_partial_points_array_def)
next
  case ne: False
  from ax show ?thesis
  proof
    assume a0: "axis = 0"
    let ?g = "map (reveal_entry (interpolate_rows interp) (\<lambda>k. reshape2 nu nv pts ! k) li lr ui ur) [0..<nu]"
    have idx0: "li \<le> ui" "ui + 1 < nu" using idx a0 by simp_all
    have r: "get_partial_points_array ii interp pts a b (nu, nv, w) axis = Inr (concat ?g)"
      using gppa_axis0[OF len ne _ _ idx0, of ii a lr b ur interp w] lo hi a0 by simp
    have rows: "\<forall>r \<in> set ?g. length r = nv"
      using reveal_rows(1)[OF len idx0] by auto
    have l: "length (concat ?g) = nu * nv"
      using length_concat_rows[OF rows] by simp
    have n: "concat ?g ! (i * nv + j) = reveal_entry interp (\<lambda>k. pts ! (k * nv + j)) li lr ui ur i"
      if "i < nu" "j < nv" for i j
      using nth_concat_rows[OF rows, of i j] reveal_rows(2)[OF len idx0 that] that by simp
    show ?thesis using r l n a0 by simp
  next
    assume a1: "axis = 1"
    let ?g = "map (\<lambda>row. map (reveal_entry interp (\<lambda>k. row ! k) li lr ui ur) [0..<nv]) (reshape2 nu nv pts)"
    have idx1: "li \<le> ui" "ui + 1 < nv" using idx a1 by simp_all
    have r: "get_partial_points_array ii interp pts a b (nu, nv, w) axis = Inr (concat ?g)"
      using gppa_axis1[OF len ne _ _ idx1, of ii a lr b ur interp w] lo hi a1 by simp
    have rows: "\<forall>r \<in> set ?g. length r = nv" by auto
    have l: "length (concat ?g) = nu * nv"
      using length_concat_rows[OF rows] by (simp add: length_reshape2)
    have n: "concat ?g ! (i * nv + j) = reveal_entry interp (\<lambda>k. pts ! (i * nv + k)) li lr ui ur j"
      if ij: "i < nu" "j < nv" for i j
    proof -
      have "concat ?g ! (i * nv + j) = ?g ! i ! j"
        using nth_concat_rows[OF rows, of i j] ij by (simp add: length_reshape2)
      also have "\<dots> = reveal_entry interp (\<lambda>k. reshape2 nu nv pts ! i ! k) li lr ui ur j"
        using ij by (simp add: length_reshape2)
      also have "\<dots> = reveal_entry interp (\<lambda>k. pts ! (i * nv + k)) li lr ui ur j"
        using idx1 ij reshape2_row(2)[OF len ij(1)]
        by (intro reveal_entry_cong) simp_all
      finally show ?thesis .
    qed
    show ?thesis using r l n a1 by simp
  qed
qed

lemma py_index_less: "py_index n i = Inr k \<Longrightarrow> k < n"
  by (auto simp: py_index_def split: if_splits)

lemma collapse_line_preserves:
  assumes r: "collapse_line interp xs li lr ui ur = Inr zs"
    and P: "\<forall>x \<in> set xs. P x" and cl: "\<And>x y t. P x \<Longrightarrow> P y \<Longrightarrow> P (interp x y t)"
  shows "length zs = length xs \<and> (\<forall>z \<in> set zs. P z)"
proof -
  let ?n = "length xs"
  from r obtain l0 l1 u0 u1 where
    l: "py_index ?n li = Inr l0" "py_index ?n (li + 1) = Inr l1" and
    u: "py_index ?n ui = Inr u0" "py_index ?n (ui + 1) = Inr u1"
    by (auto simp: collapse_line_def Let_def split: sum.splits)
  define lower where "lower = interp (xs ! l0) (xs ! l1) lr"
  define ys where "ys = map (\<lambda>i. if i < slice_bound ?n li then lower else xs ! i) [0..<?n]"
  define upper where "upper = interp (ys ! u0) (ys ! u1) ur"
  have zs: "zs = map (\<lambda>i. if slice_bound ?n (ui + 1) \<le> i then upper else ys ! i) [0..<?n]"
    using r l u unfolding upper_def ys_def lower_def
    by (auto simp: collapse_line_def Let_def)
  have b: "l0 < ?n" "l1 < ?n" "u0 < ?n" "u1 < ?n"
    using l u by (auto dest: py_index_less)
  have Pl: "P lower" unfolding lower_def using b P by (intro cl) auto
  have Pys: "P (ys ! i)" if "i < ?n" for i
    using that Pl P by (simp add: ys_def)
  have Pu: "P upper" unfolding upper_def using b Pys by (intro cl) auto
  have "P z" if "z \<in> set zs" for z
    using that Pu Pys by (auto simp: zs)
  then show ?thesis by (simp add: zs)
qed

lemma collect_Inr:
  "collect rs = Inr ys \<Longrightarrow> length ys = length rs \<and> (\<forall>i<length rs. rs ! i = Inr (ys ! i))"
proof (induction rs arbitrary: ys)
  case Nil then show ?case by simp
next
  case (Cons r rs)
  then obtain y ys' where y: "r = Inr y" "collect rs = Inr ys'" "ys = y # ys'"
    by (auto split: sum.splits)
  from Cons.IH[OF y(2)] y show ?case by (auto simp: nth_Cons split: nat.splits)
qed

lemma reshape2_rows_length:
  assumes "length pts = nu * nv"
  shows "\<forall>row \<in> set (reshape2 nu nv pts). length row = nv"
proof
  fix row assume "row \<in> set (reshape2 nu nv pts)"
  then obtain i where "i < nu" "row = reshape2 nu nv pts ! i"
    by (auto simp: in_set_conv_nth length_reshape2)
  then show "length row = nv" using reshape2_row(1)[OF assms] by simp
qed

lemma gppa_length:
  assumes "get_partial_points_array ii interp pts a b shape axis = Inr ps"
  shows "length ps = length pts"
proof (cases "length pts = 0")
  case True
  with assms show ?thesis by (simp add: get_partial_points_array_def)
next
  case False
  obtain nu nv w where shape: "shape = (nu, nv, w)" by (cases shape) auto
  from assms False shape have len: "length pts = nu * nv"
    by (auto simp: get_partial_points_array_def split: if_splits)
  from assms False shape len obtain ax where ax: "py_index 3 axis = Inr ax"
    by (auto simp: get_partial_points_array_def split: sum.splits)
  obtain li lr where lo: "ii 0 (int ([nu, nv, w] ! ax) - 1) a = (li, lr)" by (cases "ii 0 (int ([nu, nv, w] ! ax) - 1) a") auto
  obtain ui ur where hi: "ii 0 (int ([nu, nv, w] ! ax) - 1) b = (ui, ur)" by (cases "ii 0 (int ([nu, nv, w] ! ax) - 1) b") auto
  note rows = reshape2_rows_length[OF len]
  show ?thesis
  proof (cases "axis = 0")
    case True
    with assms False shape len ax lo hi obtain g where
      g: "collapse_line (interpolate_rows interp) (reshape2 nu nv pts) li lr ui ur = Inr g" "ps = concat g"
      by (auto simp: get_partial_points_array_def Let_def split: sum.splits)
    have "length g = length (reshape2 nu nv pts) \<and> (\<forall>z \<in> set g. length z = nv)"
      by (rule collapse_line_preserves[OF g(1) rows]) (simp add: length_interpolate_rows)
    then show ?thesis using g(2) len length_concat_rows[of g nv] by (simp add: length_reshape2)
  next
    case False
    with assms \<open>length pts \<noteq> 0\<close> shape len ax lo hi obtain g where
      g: "collect (map (\<lambda>row. collapse_line interp row li lr ui ur) (reshape2 nu nv pts)) = Inr g"
        "ps = concat g"
      by (auto simp: get_partial_points_array_def Let_def split: sum.splits)
    from collect_Inr[OF g(1)] have lg: "length g = nu"
      and each: "\<forall>i<nu. collapse_line interp (reshape2 nu nv pts ! i) li lr ui ur = Inr (g ! i)"
      by (simp_all add: length_reshape2)
    have "\<forall>z \<in> set g. length z = nv"
    proof
      fix z assume "z \<in> set g"
      then obtain i where i: "i < nu" "z = g ! i" using lg by (auto simp: in_set_conv_nth)
      from each i have "collapse_line interp (reshape2 nu nv pts ! i) li lr ui ur = Inr z" by simp
      from collapse_line_preserves[OF this, of "\<lambda>x. True"] have "length z = length (reshape2 nu nv pts ! i)"
        by simp
      then show "length z = nv" using reshape2_row(1)[OF len i(1)] by simp
    qed
    then show ?thesis using g(2) len lg length_concat_rows[of g nv] by simp
  qed
qed

lemma read_views_thirds:
  "map (read_view st) (get_surface_points_and_nudged_points st s) = thirds (get_points st s)"
  by (simp add: get_surface_points_and_nudged_points_def thirds_def Let_def read_view_def get_points_def)

lemma views_allocated:
  "points s < next_free st \<Longrightarrow> \<forall>v \<in> set (get_surface_points_and_nudged_points st s). buf v < next_free st"
  by (simp add: get_surface_points_and_nudged_points_def Let_def)

lemma partial_arrays_char:
  assumes "\<forall>v \<in> set vs. buf v < next_free st"
  shows "case partial_arrays ii interp vs a b shape axis st of
      Inl e \<Rightarrow> collect (map (\<lambda>v. get_partial_points_array ii interp (read_view st v) a b shape axis) vs) = Inl e
    | Inr (arrs, st') \<Rightarrow>
        collect (map (\<lambda>v. get_partial_points_array ii interp (read_view st v) a b shape axis) vs) =
          Inr (map (read_view st') arrs) \<and>
        (\<forall>x<next_free st. buffers st' x = buffers st x) \<and> next_free st \<le> next_free st'"
  using assms
proof (induction vs arbitrary: st)
  case Nil
  then show ?case by simp
next
  case (Cons v vs)
  let ?G = "\<lambda>st v. get_partial_points_array ii interp (read_view st v) a b shape axis"
  define c where "c = \<lparr>buf = next_free st, offset = 0, count = count v\<rparr>"
  define st1 where "st1 = st\<lparr>buffers := (buffers st)(next_free st := read_view st v),
      next_free := Suc (next_free st)\<rparr>"
  have cp: "copy_view v st = (c, st1)" by (simp add: copy_view_def alloc_def c_def st1_def)
  have rc: "read_view st1 c = read_view st v"
    by (simp add: read_view_def c_def st1_def)
  show ?case
  proof (cases "?G st v")
    case (Inl e)
    then show ?thesis
      by (simp add: cp get_partial_points_array_inplace_def rc)
  next
    case (Inr ps)
    define st2 where "st2 = write_view c ps st1"
    have lps: "length ps = length (read_view st v)" using gppa_length[OF Inr] .
    have lrv: "length (read_view st v) \<le> count v" by (simp add: read_view_def)
    have b2: "buffers st2 = (buffers st)(next_free st := ps)"
      using lrv by (simp add: st2_def write_view_def c_def st1_def rc[unfolded c_def st1_def] fun_eq_iff
          read_view_def)
    have nf2: "next_free st2 = Suc (next_free st)" by (simp add: st2_def write_view_def st1_def)
    have ip: "get_partial_points_array_inplace ii interp c a b shape axis st1 = Inr (c, st2)"
      using Inr by (simp add: get_partial_points_array_inplace_def rc st2_def)
    have alloc2: "\<forall>v \<in> set vs. buf v < next_free st2" using Cons.prems nf2 by auto
    have same: "read_view st2 u = read_view st u" if "u \<in> set vs" for u
    proof -
      have "buf u \<noteq> next_free st" using Cons.prems that by auto
      then show ?thesis by (simp add: read_view_def b2)
    qed
    have Geq: "map (?G st2) vs = map (?G st) vs"
      by (rule map_cong[OF refl]) (simp add: same)
    note IH = Cons.IH[OF alloc2]
    show ?thesis
    proof (cases "partial_arrays ii interp vs a b shape axis st2")
      case (Inl e)
      with IH have "collect (map (?G st2) vs) = Inl e" by simp
      then show ?thesis using Inl Inr Geq by (simp add: cp ip)
    next
      case r: (Inr p)
      obtain rs st3 where p: "p = (rs, st3)" by (cases p)
      from IH r p have col: "collect (map (?G st2) vs) = Inr (map (read_view st3) rs)"
        and fr: "\<forall>x<next_free st2. buffers st3 x = buffers st2 x" and mono: "next_free st2 \<le> next_free st3"
        by simp_all
      have "buffers st3 (next_free st) = ps" using fr nf2 b2 by simp
      then have rc3: "read_view st3 c = ps" using lps lrv by (simp add: read_view_def c_def)
      have fr': "\<forall>x<next_free st. buffers st3 x = buffers st x" using fr nf2 b2 by simp
      show ?thesis using r p Inr col Geq rc3 fr' mono nf2 by (simp add: cp ip)
    qed
  qed
qed

lemma pbp_slow:
  assumes slow: "\<not> (a \<le> 0 \<and> 1 \<le> b)" and res: "resolution smobject = (nu, nv)"
    and al: "points smobject < next_free st"
  shows "case pointwise_become_partial ii interp self smobject a b axis_arg st of
      Inl e \<Rightarrow> collect (map (\<lambda>ps. get_partial_points_array ii interp ps a b (nu, nv, 3)
                 (case axis_arg of None \<Rightarrow> prefered_creation_axis self | Some ax \<Rightarrow> ax))
               (thirds (get_points st smobject))) = Inl e
    | Inr st' \<Rightarrow>
        (\<exists>pss. collect (map (\<lambda>ps. get_partial_points_array ii interp ps a b (nu, nv, 3)
                 (case axis_arg of None \<Rightarrow> prefered_creation_axis self | Some ax \<Rightarrow> ax))
               (thirds (get_points st smobject))) = Inr pss \<and>
           get_points st' self = concat pss) \<and>
        (points self \<noteq> points smobject \<longrightarrow> get_points st' smobject = get_points st smobject)"
proof -
  let ?axis = "case axis_arg of None \<Rightarrow> prefered_creation_axis self | Some ax \<Rightarrow> ax"
  let ?vs = "get_surface_points_and_nudged_points st smobject"
  have m: "map (\<lambda>v. get_partial_points_array ii interp (read_view st v) a b (nu, nv, 3) ?axis) ?vs =
      map (\<lambda>ps. get_partial_points_array ii interp ps a b (nu, nv, 3) ?axis) (thirds (get_points st smobject))"
    using read_views_thirds[of st smobject, symmetric] by (simp add: comp_def)
  note ch = partial_arrays_char[OF views_allocated[OF al], of ii interp a b "(nu, nv, 3)" ?axis]
  show ?thesis
  proof (cases "partial_arrays ii interp ?vs a b (nu, nv, 3) ?axis st")
    case (Inl e)
    moreover have "(a \<le> 0 \<and> b \<ge> 1) = False" using slow by simp
    ultimately show ?thesis using ch m res by (simp add: pointwise_become_partial_def Let_def)
  next
    case r: (Inr p)
    obtain arrs st1 where p: "p = (arrs, st1)" by (cases p)
    from ch r p m have col: "collect (map (\<lambda>ps. get_partial_points_array ii interp ps a b (nu, nv, 3) ?axis)
          (thirds (get_points st smobject))) = Inr (map (read_view st1) arrs)"
      and fr: "\<forall>x<next_free st. buffers st1 x = buffers st x" by simp_all
    have pb: "pointwise_become_partial ii interp self smobject a b axis_arg st =
        Inr (set_points (concat (map (read_view st1) arrs)) self st1)"
    proof -
      have "(a \<le> 0 \<and> b \<ge> 1) = False" using slow by simp
      then show ?thesis using res r p
        by (simp only: pointwise_become_partial_def Let_def if_False prod.case sum.case)
    qed
    show ?thesis using col fr al by (simp add: pb get_points_def set_points_def)
  qed
qed

lemma thirds_exact:
  assumes "length xs = 3 * n"
  shows "thirds xs = [take n xs, take n (drop n xs), drop (2 * n) xs]"
    and "\<forall>p \<in> set (thirds xs). length p = n"
    and "m < 3 \<Longrightarrow> y < n \<Longrightarrow> thirds xs ! m ! y = xs ! (m * n + y)"
proof -
  have k: "length xs div 3 = n" using assms by simp
  show t: "thirds xs = [take n xs, take n (drop n xs), drop (2 * n) xs]"
    by (simp add: thirds_def k)
  show "\<forall>p \<in> set (thirds xs). length p = n" using assms by (simp add: t)
  show "thirds xs ! m ! y = xs ! (m * n + y)" if "m < 3" "y < n"
  proof -
    from that(1) have "m = 0 \<or> m = 1 \<or> m = 2" by arith
    then show ?thesis using that(2) assms by (auto simp: t)
  qed
qed

lemma pbp_reveal:
  assumes slow: "\<not> (a \<le> 0 \<and> 1 \<le> b)"
    and res: "resolution smobject = (nu, nv)"
    and len: "length (get_points st smobject) = 3 * (nu * nv)"
    and axis: "axis = (case axis_arg of None \<Rightarrow> prefered_creation_axis self | Some ax \<Rightarrow> ax)"
    and ax: "axis = 0 \<or> axis = 1"
    and lo: "ii 0 (int (if axis = 0 then nu else nv) - 1) a = (int lower_index, lower_residue)"
    and hi: "ii 0 (int (if axis = 0 then nu else nv) - 1) b = (int upper_index, upper_residue)"
    and idx: "lower_index \<le> upper_index" "upper_index + 1 < (if axis = 0 then nu else nv)"
    and sep: "points self \<noteq> points smobject" "points smobject < next_free st"
  shows "\<exists>st'. pointwise_become_partial ii interp self smobject a b axis_arg st = Inr st' \<and>
      length (get_points st' self) = 3 * (nu * nv) \<and>
      (\<forall>m<3. \<forall>i<nu. \<forall>j<nv.
         get_points st' self ! (m * (nu * nv) + (i * nv + j)) =
         reveal_entry interp
           (\<lambda>k. get_points st smobject ! (m * (nu * nv) + (if axis = 0 then k * nv + j else i * nv + k)))
           lower_index lower_residue upper_index upper_residue (if axis = 0 then i else j)) \<and>
      get_points st' smobject = get_points st smobject"
proof -
  let ?buf = "get_points st smobject"
  let ?n = "nu * nv"
  let ?G = "\<lambda>ps. get_partial_points_array ii interp ps a b (nu, nv, 3) axis"
  let ?spec = "\<lambda>P i j. reveal_entry interp (\<lambda>k. P ! (if axis = 0 then k * nv + j else i * nv + k))
      lower_index lower_residue upper_index upper_residue (if axis = 0 then i else j)"
  note th = thirds_exact[OF len]
  have each: "\<exists>ps. ?G P = Inr ps \<and> length ps = ?n \<and> (\<forall>i<nu. \<forall>j<nv. ps ! (i * nv + j) = ?spec P i j)"
    if "P \<in> set (thirds ?buf)" for P
  proof -
    from that th(2) have "length P = nu * nv" by simp
    then show ?thesis
      using ax lo hi idx
      by (rule gppa_reveal[where pts = P and nu = nu and nv = nv and axis = axis and ii = ii
            and a = a and b = b and li = lower_index and ui = upper_index
            and lr = lower_residue and ur = upper_residue and interp = interp and w = 3])
  qed
  define R where "R = (\<lambda>P. projr (?G P))"
  have R: "?G P = Inr (R P)" "length (R P) = ?n" "\<forall>i<nu. \<forall>j<nv. R P ! (i * nv + j) = ?spec P i j"
    if "P \<in> set (thirds ?buf)" for P
    using each[OF that] by (auto simp: R_def)
  have "map ?G (thirds ?buf) = map (\<lambda>P. Inr (R P)) (thirds ?buf)"
    by (rule map_cong[OF refl]) (simp add: R(1))
  then have col: "collect (map ?G (thirds ?buf)) = Inr (map R (thirds ?buf))"
    by (simp only: collect_map_Inr)
  note ps = pbp_slow[OF slow res sep(2), of ii interp self axis_arg, folded axis]
  from ps col obtain st' where
    st': "pointwise_become_partial ii interp self smobject a b axis_arg st = Inr st'"
    by (cases "pointwise_become_partial ii interp self smobject a b axis_arg st") auto
  from ps st' col sep(1) have gp: "get_points st' self = concat (map R (thirds ?buf))"
    and src: "get_points st' smobject = ?buf" by auto
  have rows: "\<forall>r \<in> set (map R (thirds ?buf)). length r = ?n" using R(2) by auto
  have l3: "length (thirds ?buf) = 3" by (simp add: th(1))
  have l: "length (get_points st' self) = 3 * ?n"
    using length_concat_rows[OF rows] l3 by (simp add: gp)
  have entry: "get_points st' self ! (m * ?n + (i * nv + j)) =
      reveal_entry interp (\<lambda>k. ?buf ! (m * ?n + (if axis = 0 then k * nv + j else i * nv + k)))
        lower_index lower_residue upper_index upper_residue (if axis = 0 then i else j)"
    if m: "m < 3" and i: "i < nu" and j: "j < nv" for m i j
  proof -
    have y: "i * nv + j < ?n" using i j by (rule mult_add_less)
    have Pm: "thirds ?buf ! m \<in> set (thirds ?buf)" using m l3 by simp
    have "get_points st' self ! (m * ?n + (i * nv + j)) = map R (thirds ?buf) ! m ! (i * nv + j)"
      using nth_concat_rows[OF rows, of m "i * nv + j"] m l3 y by (simp add: gp)
    also have "\<dots> = R (thirds ?buf ! m) ! (i * nv + j)" using m l3 by simp
    also have "\<dots> = ?spec (thirds ?buf ! m) i j" using R(3)[OF Pm] i j by simp
    also have "\<dots> = reveal_entry interp (\<lambda>k. ?buf ! (m * ?n + (if axis = 0 then k * nv + j else i * nv + k)))
        lower_index lower_residue upper_index upper_residue (if axis = 0 then i else j)"
    proof -
      have pos: "thirds ?buf ! m ! (if axis = 0 then k * nv + j else i * nv + k) =
          ?buf ! (m * ?n + (if axis = 0 then k * nv + j else i * nv + k))"
        if "k < (if axis = 0 then nu else nv)" for k
      proof -
        have "(if axis = 0 then k * nv + j else i * nv + k) < ?n"
          using that i j by (auto intro: mult_add_less)
        then show ?thesis by (rule th(3)[OF m])
      qed
      show ?thesis
        using idx i j by (intro reveal_entry_cong pos) (auto split: if_splits)
    qed
    finally show ?thesis .
  qed
  show ?thesis using st' l entry src by blast
qed

lemma example_reveal_returns:
  "\<exists>st'. pointwise_become_partial integer_interpolate interpolate example_target example_source
          (1 / 2) (3 / 4) (Some 0) example_store = Inr st'"
proof -
  have slow: "\<not> ((1 / 2 :: real) \<le> 0 \<and> (1::real) \<le> 3 / 4)" by simp
  have res: "resolution example_source = (4, 1)" by (simp add: example_source_def)
  have len: "length (get_points example_store example_source) = 3 * (4 * 1)"
    by (simp add: get_points_def example_store_def example_source_def example_buffer_def)
  have axis: "(0::int) = (case Some 0 of None \<Rightarrow> prefered_creation_axis example_target | Some ax \<Rightarrow> ax)"
    by simp
  have ax: "(0::int) = 0 \<or> (0::int) = 1" by simp
  have lo: "integer_interpolate 0 (int (if (0::int) = 0 then 4 else 1) - 1) (1 / 2) = (int 1, 1 / 2)"
    by (simp add: integer_interpolate_def Let_def)
  have hi: "integer_interpolate 0 (int (if (0::int) = 0 then 4 else 1) - 1) (3 / 4) = (int 2, 1 / 4)"
    by (simp add: integer_interpolate_def Let_def)
  have idx: "(1::nat) \<le> 2" "(2::nat) + 1 < (if (0::int) = 0 then 4 else 1)" by simp_all
  have sep: "points example_target \<noteq> points example_source" "points example_source < next_free example_store"
    by (simp_all add: example_target_def example_source_def example_store_def)
  from pbp_reveal[where ii = integer_interpolate and interp = interpolate
      and a = "1 / 2" and b = "3 / 4" and smobject = example_source and self = example_target
      and st = example_store and nu = 4 and nv = 1 and axis = 0 and axis_arg = "Some 0"
      and lower_index = 1 and upper_index = 2 and lower_residue = "1 / 2"
      and upper_residue = "1 / 4", OF slow res len axis ax lo hi idx sep]
  show ?thesis by blast
qed

lemma collapse_line_single:
  "length row = 1 \<Longrightarrow> collapse_line interp row 0 lr ui ur = Inl IndexError"
  by (simp add: collapse_line_def py_index_def)

lemma integer_interpolate_single: "integer_interpolate 0 0 x = (0, 0)"
  by (simp add: integer_interpolate_def)

lemma collect_all_Inl:
  "xs \<noteq> [] \<Longrightarrow> \<forall>x \<in> set xs. f x = Inl e \<Longrightarrow> collect (map f xs) = Inl e"
  by (cases xs) simp_all

lemma gppa_single_column:
  assumes "length pts = nu * 1" "pts \<noteq> []"
  shows "get_partial_points_array integer_interpolate interp pts a b (nu, 1, 3) 1 = Inl IndexError"
proof -
  have ne: "reshape2 nu 1 pts \<noteq> []"
    using assms length_reshape2[of nu 1 pts] by (cases nu) auto
  have "\<forall>row \<in> set (reshape2 nu 1 pts). collapse_line interp row 0 0 0 0 = Inl IndexError"
    using reshape2_rows_length[OF assms(1)] by (simp add: collapse_line_single)
  with ne have "collect (map (\<lambda>row. collapse_line interp row 0 0 0 0) (reshape2 nu 1 pts)) = Inl IndexError"
    by (rule collect_all_Inl)
  moreover have "0 < nu" using assms by (cases nu) auto
  ultimately show ?thesis
    using assms by (simp add: get_partial_points_array_def py_index_def integer_interpolate_single)
qed

lemma partial_arrays_first_fails:
  assumes "get_partial_points_array ii interp (read_view st v) a b shape axis = Inl e"
  shows "partial_arrays ii interp (v # vs) a b shape axis st = Inl e"
proof -
  obtain c st1 where c: "copy_view v st = (c, st1)" by (cases "copy_view v st")
  then have "read_view st1 c = read_view st v"
    by (auto simp: copy_view_def alloc_def read_view_def)
  with assms c show ?thesis
    by (simp add: get_partial_points_array_inplace_def)
qed

text \<open>
  Claim C1, as stated for every resolution, fails: the source surface of the example has
  resolution \<open>(4, 1)\<close>, one sample along the default axis 1, and partial reveal to
  \<open>[1/2, 3/4]\<close> along that axis raises \<open>IndexError\<close> where the code reads the column after
  the lower index; nothing is written.
\<close>

theorem pointwise_become_partial_reveal_counterexample:
  "pointwise_become_partial integer_interpolate interpolate example_target example_source
     (1 / 2) (3 / 4) None example_store = Inl IndexError"
proof -
  have v: "get_surface_points_and_nudged_points example_store example_source =
      [\<lparr>buf = 0, offset = 0, count = 4\<rparr>, \<lparr>buf = 0, offset = 4, count = 4\<rparr>,
       \<lparr>buf = 0, offset = 8, count = 4\<rparr>]"
    by (simp add: get_surface_points_and_nudged_points_def get_points_def example_store_def
        example_source_def example_buffer_def Let_def)
  have l: "length (read_view example_store \<lparr>buf = 0, offset = 0, count = 4\<rparr>) = 4 * 1"
    "read_view example_store \<lparr>buf = 0, offset = 0, count = 4\<rparr> \<noteq> []"
    by (simp_all add: read_view_def example_store_def example_buffer_def)
  have "partial_arrays integer_interpolate interpolate
      (get_surface_points_and_nudged_points example_store example_source) (1 / 2) (3 / 4) (4, 1, 3) 1
      example_store = Inl IndexError"
    unfolding v by (rule partial_arrays_first_fails) (rule gppa_single_column[OF l])
  then show ?thesis
    by (simp add: pointwise_become_partial_def example_target_def example_source_def Let_def)
qed

text \<open>
  Claim C1, amended. For a surface with resolution \<open>(nu, nv)\<close> whose buffer holds three arrays
  of \<open>nu * nv\<close> points, an axis 0 or 1 and an interval \<open>[a, b]\<close> outside the fast path such
  that the integer interpolation along the axis gives indices
  \<open>0 \<le> lower_index \<le> upper_index\<close> with \<open>upper_index + 1\<close> still an index of the axis (so the
  axis has at least two samples), and a target with a buffer of its own,
  \<open>pointwise_become_partial\<close> gives the target, in each of its three point arrays, the
  source's array with the slices outside \<open>[lower_index, upper_index]\<close> along the axis
  overwritten: the rows (columns) before \<open>lower_index\<close> by the interpolation of rows
  \<open>lower_index\<close> and \<open>lower_index + 1\<close> weighted by the lower residue, those after
  \<open>upper_index\<close> by the interpolation of rows \<open>upper_index\<close> and \<open>upper_index + 1\<close> weighted
  by the upper residue; the slice between stays as in the source; and the source's own point
  buffer is unchanged, the writes going to fresh copies.
\<close>

theorem pointwise_become_partial_reveal:
  assumes slow: "\<not> (a \<le> 0 \<and> 1 \<le> b)"
    and res: "resolution smobject = (nu, nv)"
    and len: "length (get_points st smobject) = 3 * (nu * nv)"
    and axis: "axis = (case axis_arg of None \<Rightarrow> prefered_creation_axis self | Some ax \<Rightarrow> ax)"
    and ax: "axis = 0 \<or> axis = 1"
    and lo: "ii 0 (int (if axis = 0 then nu else nv) - 1) a = (int lower_index, lower_residue)"
    and hi: "ii 0 (int (if axis = 0 then nu else nv) - 1) b = (int upper_index, upper_residue)"
    and idx: "lower_index \<le> upper_index" "upper_index + 1 < (if axis = 0 then nu else nv)"
    and sep: "points self \<noteq> points smobject" "points smobject < next_free st"
  shows "\<exists>st'. pointwise_become_partial ii interp self smobject a b axis_arg st = Inr st' \<and>
      length (get_points st' self) = 3 * (nu * nv) \<and>
      (\<forall>m<3. \<forall>i<nu. \<forall>j<nv.
         get_points st' self ! (m * (nu * nv) + (i * nv + j)) =
         reveal_entry interp
           (\<lambda>k. get_points st smobject ! (m * (nu * nv) + (if axis = 0 then k * nv + j else i * nv + k)))
           lower_index lower_residue upper_index upper_residue (if axis = 0 then i else j)) \<and>
      get_points st' smobject = get_points st smobject"
  using assms by (rule pbp_reveal)

theorem pointwise_become_partial_reveal_witness:
  "get_points (projr (pointwise_become_partial integer_interpolate interpolate
       example_target example_source (1 / 2) (3 / 4) (Some 0) example_store)) example_target ! 0
     = (3 / 2, 0, 0) \<and>
   get_points (projr (pointwise_become_partial integer_interpolate interpolate
       example_target example_source (1 / 2) (3 / 4) (Some 0) example_store)) example_source
     = example_buffer"
proof -
  have slow: "\<not> ((1 / 2 :: real) \<le> 0 \<and> (1::real) \<le> 3 / 4)" by simp
  have res: "resolution example_source = (4, 1)" by (simp add: example_source_def)
  have len: "length (get_points example_store example_source) = 3 * (4 * 1)"
    by (simp add: get_points_def example_store_def example_source_def example_buffer_def)
  have axis: "(0::int) = (case Some 0 of None \<Rightarrow> prefered_creation_axis example_target | Some ax \<Rightarrow> ax)"
    by simp
  have ax: "(0::int) = 0 \<or> (0::int) = 1" by simp
  have lo: "integer_interpolate 0 (int (if (0::int) = 0 then 4 else 1) - 1) (1 / 2) = (int 1, 1 / 2)"
    by (simp add: integer_interpolate_def Let_def)
  have hi: "integer_interpolate 0 (int (if (0::int) = 0 then 4 else 1) - 1) (3 / 4) = (int 2, 1 / 4)"
    by (simp add: integer_interpolate_def Let_def)
  have idx: "(1::nat) \<le> 2" "(2::nat) + 1 < (if (0::int) = 0 then 4 else 1)" by simp_all
  have sep: "points example_target \<noteq> points example_source" "points example_source < next_free example_store"
    by (simp_all add: example_target_def example_source_def example_store_def)
  from pointwise_become_partial_reveal[where ii = integer_interpolate and interp = interpolate
      and a = "1 / 2" and b = "3 / 4" and smobject = example_source and self = example_target
      and st = example_store and nu = 4 and nv = 1 and axis = 0 and axis_arg = "Some 0"
      and lower_index = 1 and upper_index = 2 and lower_residue = "1 / 2"
      and upper_residue = "1 / 4", OF slow res len axis ax lo hi idx sep]
  obtain st' where
    r: "pointwise_become_partial integer_interpolate interpolate example_target example_source
          (1 / 2) (3 / 4) (Some 0) example_store = Inr st'"
    and e: "\<forall>m<3. \<forall>i<4. \<forall>j<1.
         get_points st' example_target ! (m * (4 * 1) + (i * 1 + j)) =
         reveal_entry interpolate
           (\<lambda>k. get_points example_store example_source !
              (m * (4 * 1) + (if (0::int) = 0 then k * 1 + j else i * 1 + k)))
           1 (1 / 2) 2 (1 / 4) (if (0::int) = 0 then i else j)"
    and s: "get_points st' example_source = get_points example_store example_source"
    by blast
  from e[rule_format, of 0 0 0]
  have "get_points st' example_target ! 0 = (3 / 2, 0, 0)"
    by (simp add: reveal_entry_def get_points_def example_store_def example_source_def
        example_buffer_def interpolate_def)
  moreover have "get_points st' example_source = example_buffer"
    using s by (simp add: get_points_def example_store_def example_source_def)
  ultimately show ?thesis using r by simp
qed

text \<open>
  Claim C2. For every source surface, every \<open>a \<le> 0\<close> and every \<open>b \<ge> 1\<close> (so for \<open>a = 0\<close>,
  \<open>b = 1\<close>), \<open>pointwise_become_partial\<close> takes the fast path and the target's point buffer
  becomes equal to the source's; the textured variant does the same and copies the texture
  coordinates, given coordinate arrays of one length.
\<close>

theorem pointwise_become_partial_identity:
  assumes "a \<le> 0" and "1 \<le> b"
  shows "(\<exists>st'. pointwise_become_partial ii interp self smobject a b axis_arg st = Inr st' \<and>
            get_points st' self = get_points st smobject) \<and>
         (length (im_coords tsmobject) = length (im_coords tself) \<longrightarrow>
          (\<exists>tself' st'. pointwise_become_partial_textured ii interp interp_uv tself tsmobject a b axis st
               = Inr (tself', st') \<and>
             get_points st' tself' = get_points st tsmobject \<and>
             im_coords tself' = im_coords tsmobject))"
  using assms
  by (simp add: pointwise_become_partial_def pointwise_become_partial_textured_def match_points_def
      set_points_def get_points_def assign_all_def Let_def)

theorem pointwise_become_partial_identity_witness:
  "get_points (projr (pointwise_become_partial integer_interpolate interpolate
       example_target example_source 0 1 None example_store)) example_target = example_buffer \<and>
   get_points (snd (projr (pointwise_become_partial_textured integer_interpolate interpolate
       (\<lambda>p q t. p) example_textured_target example_textured_source 0 1 1 example_store)))
     example_textured_target = example_buffer"
proof -
  have h: "(0::real) \<le> 0" "(1::real) \<le> 1" by simp_all
  have l: "length (im_coords example_textured_source) = length (im_coords example_textured_target)"
    by (simp add: example_textured_source_def example_textured_target_def)
  note t = pointwise_become_partial_identity[OF h, where ii = integer_interpolate and interp = interpolate
      and self = example_target and smobject = example_source and st = example_store
      and axis_arg = None and tself = example_textured_target and tsmobject = example_textured_source
      and interp_uv = "\<lambda>p q t. p" and axis = 1]
  from t[THEN conjunct1] obtain st' where
    1: "pointwise_become_partial integer_interpolate interpolate
       example_target example_source 0 1 None example_store = Inr st'"
       "get_points st' example_target = get_points example_store example_source" by blast
  from t[THEN conjunct2, rule_format, OF l] obtain tself' st'' where
    2: "pointwise_become_partial_textured integer_interpolate interpolate
       (\<lambda>p q t. p) example_textured_target example_textured_source 0 1 1 example_store = Inr (tself', st'')"
       "get_points st'' tself' = get_points example_store example_textured_source" by blast
  have p: "points tself' = points example_textured_target"
    using 2(1) by (auto simp: pointwise_become_partial_textured_def Let_def split: sum.splits if_splits)
  have b: "get_points example_store example_source = example_buffer"
    "get_points example_store example_textured_source = example_buffer"
    by (simp_all add: get_points_def example_store_def example_source_def example_textured_source_def)
  show ?thesis using 1 2 p b by (simp add: get_points_def)
qed

lemma split_lengths_iff:
  "split_lengths st s = [n, n, n] \<longleftrightarrow> length (get_points st s) = 3 * n"
proof -
  have "split_lengths st s = map length (thirds (get_points st s))"
    using read_views_thirds[of st s, symmetric] by (simp add: split_lengths_def comp_def)
  then show ?thesis by (auto simp: thirds_def Let_def)
qed

lemma collect_map_lengths:
  assumes "collect (map G xs) = Inr ys" and "\<And>x y. G x = Inr y \<Longrightarrow> length y = length x"
  shows "length (concat ys) = length (concat xs)"
  using assms
proof (induction xs arbitrary: ys)
  case Nil then show ?case by simp
next
  case (Cons x xs)
  then obtain y ys' where y: "G x = Inr y" "collect (map G xs) = Inr ys'" "ys = y # ys'"
    by (auto split: sum.splits)
  from Cons.IH[OF y(2) Cons.prems(2)] Cons.prems(2)[OF y(1)] y(3) show ?case by simp
qed

lemma concat_thirds: "concat (thirds xs) = xs"
proof -
  have "take k xs @ take k (drop k xs) @ drop (2 * k) xs = xs" for k
    by (metis append_take_drop_id drop_drop mult_2 append.assoc add.commute)
  then show ?thesis by (simp add: thirds_def Let_def)
qed

lemma pbp_length:
  assumes al: "points smobject < next_free st"
    and r: "pointwise_become_partial ii interp self smobject a b axis_arg st = Inr st'"
  shows "length (get_points st' self) = length (get_points st smobject)"
proof (cases "a \<le> 0 \<and> 1 \<le> b")
  case True
  with r show ?thesis
    by (auto simp: pointwise_become_partial_def match_points_def set_points_def get_points_def Let_def)
next
  case False
  obtain nu nv where res: "resolution smobject = (nu, nv)" by (cases "resolution smobject")
  from pbp_slow[OF False res al, of ii interp self axis_arg] r obtain pss where
    c: "collect (map (\<lambda>ps. get_partial_points_array ii interp ps a b (nu, nv, 3)
                 (case axis_arg of None \<Rightarrow> prefered_creation_axis self | Some ax \<Rightarrow> ax))
               (thirds (get_points st smobject))) = Inr pss"
    and g: "get_points st' self = concat pss" by auto
  from collect_map_lengths[OF c gppa_length] have "length (concat pss) = length (concat (thirds (get_points st smobject)))"
    by simp
  then show ?thesis by (simp add: g concat_thirds)
qed

lemma length_point_lists:
  assumes "resolution s = (nu, nv)"
  shows "length (point_lists s) = 3" "\<forall>p \<in> set (point_lists s). length p = nu * nv"
  using assms by (simp_all add: point_lists_def length_concat_map2 length_linspace)

lemma thirds_concat3:
  assumes "length ps = 3" "\<forall>p \<in> set ps. length p = n"
  shows "thirds (concat ps) = ps"
proof -
  from assms(1) obtain p0 p1 p2 where ps: "ps = [p0, p1, p2]"
    by (auto simp: length_Suc_conv numeral_3_eq_3)
  with assms(2) have l: "length p0 = n" "length p1 = n" "length p2 = n" by simp_all
  then have "length (concat ps) div 3 = n" by (simp add: ps)
  then show ?thesis using l by (simp add: thirds_def ps)
qed

text \<open>
  Claim C9. The operations that write a surface's point buffer keep it the concatenation of
  three arrays of equal length. After grid sampling at resolution \<open>(nu, nv)\<close>, which succeeds
  when \<open>nu \<ge> 1\<close> and \<open>nv \<ge> 1\<close>, splitting the buffer into thirds recovers the three sampled
  lists, of length \<open>nu * nv\<close> each; and after a partial reveal from a source whose buffer
  splits into three arrays of length \<open>n\<close>, the target's buffer splits into three arrays of
  length \<open>n\<close>.
\<close>

theorem point_buffer_invariant:
  "(resolution s = (nu, nv) \<and> init_points s st = Inr (s', st') \<longrightarrow>
      map (read_view st') (get_surface_points_and_nudged_points st' s') = point_lists s \<and>
      split_lengths st' s' = [nu * nv, nu * nv, nu * nv]) \<and>
   (resolution s = (nu, nv) \<and> 1 \<le> nu \<and> 1 \<le> nv \<longrightarrow> (\<exists>s' st'. init_points s st = Inr (s', st'))) \<and>
   (split_lengths st smobject = [n, n, n] \<and> points smobject < next_free st \<and>
    pointwise_become_partial ii interp self smobject a b axis_arg st = Inr st1 \<longrightarrow>
      split_lengths st1 self = [n, n, n])"
proof (intro conjI impI)
  assume a: "resolution s = (nu, nv) \<and> init_points s st = Inr (s', st')"
  then have s': "s' = s" and gp: "get_points st' s' = concat (point_lists s)"
    by (auto simp: init_points_def set_points_def get_points_def split: if_splits)
  note lp = length_point_lists[OF a[THEN conjunct1]]
  show "map (read_view st') (get_surface_points_and_nudged_points st' s') = point_lists s"
    using thirds_concat3[OF lp] by (simp add: read_views_thirds gp)
  have "length (get_points st' s') = 3 * (nu * nv)"
    using length_concat_rows[OF lp(2)] lp(1) by (simp add: gp)
  then show "split_lengths st' s' = [nu * nv, nu * nv, nu * nv]" by (simp add: split_lengths_iff)
next
  assume "resolution s = (nu, nv) \<and> 1 \<le> nu \<and> 1 \<le> nv"
  then show "\<exists>s' st'. init_points s st = Inr (s', st')" by (simp add: init_points_def)
next
  assume a: "split_lengths st smobject = [n, n, n] \<and> points smobject < next_free st \<and>
    pointwise_become_partial ii interp self smobject a b axis_arg st = Inr st1"
  then have "length (get_points st1 self) = length (get_points st smobject)"
    using pbp_length by blast
  with a show "split_lengths st1 self = [n, n, n]" by (simp add: split_lengths_iff)
qed

theorem point_buffer_invariant_witness:
  "split_lengths (snd (projr (init_points example_target example_store))) example_target = [4, 4, 4] \<and>
   split_lengths (projr (pointwise_become_partial integer_interpolate interpolate
       example_target example_source (1 / 2) (3 / 4) (Some 0) example_store)) example_target = [4, 4, 4]"
proof -
  obtain st1 where r: "pointwise_become_partial integer_interpolate interpolate example_target
      example_source (1 / 2) (3 / 4) (Some 0) example_store = Inr st1"
    using example_reveal_returns by blast
  have res: "resolution example_target = (4, 1)" by (simp add: example_target_def)
  have sl: "split_lengths example_store example_source = [4, 4, 4]"
    by (simp add: split_lengths_def get_surface_points_and_nudged_points_def get_points_def
        read_view_def example_store_def example_source_def example_buffer_def Let_def)
  have al: "points example_source < next_free example_store"
    by (simp add: example_source_def example_store_def)
  note t = point_buffer_invariant[where s = example_target and nu = 4 and nv = 1
      and st = example_store and smobject = example_source and n = 4 and ii = integer_interpolate
      and interp = interpolate and self = example_target and a = "1 / 2" and b = "3 / 4"
      and axis_arg = "Some 0" and ?st1.0 = st1]
  from t[THEN conjunct2, THEN conjunct1] res obtain s' st' where
    i: "init_points example_target example_store = Inr (s', st')" by auto
  have s': "s' = example_target" using i by (auto simp: init_points_def split: if_splits prod.splits)
  from t[where s' = s' and st' = st', THEN conjunct1] res i
  have "split_lengths st' s' = [4, 4, 4]" by simp
  moreover from t[THEN conjunct2, THEN conjunct2] sl al r
  have "split_lengths st1 example_target = [4, 4, 4]" by simp
  ultimately show ?thesis using i r s' by simp
qed

subsection \<open>Depth sorting\<close>

lemma stride_positions_3:
  assumes "k < 3"
  shows "stride_positions k 3 (3 * n) = map (\<lambda>q. 3 * q + k) [0..<n]"
  using assms by (rule stride_positions_block)

lemma sort_key_cong_set:
  "(\<And>x. x \<in> set xs \<Longrightarrow> f x = g x) \<Longrightarrow> sort_key f xs = sort_key g xs"
proof (induction xs)
  case Nil then show ?case by simp
next
  case (Cons x xs)
  have s: "sort_key f xs = sort_key g xs" by (rule Cons.IH) (simp add: Cons.prems)
  have "insort_key f x ys = insort_key g x ys" if "set ys \<subseteq> set xs" for ys
    using that
  proof (induction ys)
    case Nil then show ?case by simp
  next
    case (Cons y ys)
    then show ?case using Cons.prems \<open>\<And>x'. x' \<in> set (x # xs) \<Longrightarrow> f x' = g x'\<close> by auto
  qed
  then show ?case using s by simp
qed

lemma map_insort_key:
  "map f (insort_key (\<lambda>a. key (f a)) x xs) = insort_key key (f x) (map f xs)"
  by (induction xs) auto

lemma map_sort_key:
  "map f (sort_key (\<lambda>a. key (f a)) xs) = sort_key key (map f xs)"
  by (induction xs) (auto simp: map_insort_key)

lemma nth_get_stride_3:
  assumes "k < 3" "length xs = 3 * n" "q < n"
  shows "get_stride k 3 xs ! q = xs ! (3 * q + k)" "length (get_stride k 3 xs) = n"
  using assms by (simp_all add: get_stride_def stride_positions_3)

lemma permute_slice:
  assumes k: "k < 3" and len: "length xs = 3 * n" and sg: "length sg = n" "\<forall>i \<in> set sg. i < n"
  shows "assign_stride_checked k 3 xs (map (\<lambda>i. get_stride k 3 xs ! i) sg) =
     Inr (map (\<lambda>p. if p mod 3 = k then xs ! (3 * (sg ! (p div 3)) + k) else xs ! p) [0..<3 * n])"
proof -
  have slots: "length (stride_positions k 3 (length xs)) = n"
    by (simp add: len stride_positions_3[OF k])
  have "assign_stride k 3 xs (map (\<lambda>i. get_stride k 3 xs ! i) sg) =
      map (\<lambda>p. if p mod 3 = k then xs ! (3 * (sg ! (p div 3)) + k) else xs ! p) [0..<3 * n]"
  proof (rule nth_equalityI)
    show "length (assign_stride k 3 xs (map (\<lambda>i. get_stride k 3 xs ! i) sg)) =
        length (map (\<lambda>p. if p mod 3 = k then xs ! (3 * (sg ! (p div 3)) + k) else xs ! p) [0..<3 * n])"
      by (simp add: len)
  next
    fix p assume "p < length (assign_stride k 3 xs (map (\<lambda>i. get_stride k 3 xs ! i) sg))"
    then have p: "p < 3 * n" by (simp add: len)
    then have q: "p div 3 < n" by simp
    then have "sg ! (p div 3) < n" using sg by simp
    then show "assign_stride k 3 xs (map (\<lambda>i. get_stride k 3 xs ! i) sg) ! p =
        map (\<lambda>p. if p mod 3 = k then xs ! (3 * (sg ! (p div 3)) + k) else xs ! p) [0..<3 * n] ! p"
      using p q k sg(1) len
      by (simp add: nth_assign_stride nth_get_stride_3(1)[OF k len])
  qed
  then show ?thesis using slots sg(1) by (simp add: assign_stride_checked_def Let_def)
qed

lemma mod_div_3: "k < 3 \<Longrightarrow> (3 * q + k) mod 3 = k" "k < 3 \<Longrightarrow> (3 * q + k) div 3 = (q::nat)"
  by simp_all

lemma sort_faces_result:
  assumes len: "length (triangle_indices self) = 3 * n"
    and valid: "\<forall>t<n. triangle_indices self ! (3 * t) < length (get_points st self)"
  shows "\<exists>self'. sort_faces_back_to_front self vect st = Inr self' \<and>
      length (triangle_indices self') = 3 * n \<and>
      triangles (triangle_indices self') =
        sort_key (triangle_key (get_points st self) vect) (triangles (triangle_indices self))"
proof -
  let ?tri = "triangle_indices self"
  let ?pts = "get_points st self"
  let ?key = "triangle_key ?pts vect"
  let ?T = "triangles ?tri"
  define index_dot where "index_dot = (\<lambda>index. dot (?pts ! (?tri ! (3 * index))) vect)"
  define sg where "sg = sort_key index_dot [0..<n]"
  have n: "length ?tri div 3 = n" using len by simp
  have lsg: "length sg = n" by (simp add: sg_def)
  have ssg: "\<forall>i \<in> set sg. i < n" by (simp add: sg_def)
  define F :: "nat \<Rightarrow> nat list \<Rightarrow> nat list" where "F = (\<lambda>k xs. map (\<lambda>p. if p mod 3 = k then xs ! (3 * (sg ! (p div 3)) + k) else xs ! p) [0..<3 * n])"
  have lF: "length (F k xs) = 3 * n" for k and xs :: "nat list" by (simp add: F_def)
  have step: "assign_stride_checked k 3 xs (map (\<lambda>i. get_stride k 3 xs ! i) sg) = Inr (F k xs)"
    if "k < 3" "length xs = 3 * n" for k and xs :: "nat list"
    unfolding F_def using that lsg ssg by (rule permute_slice)
  have ok: "\<not> (\<exists>index \<in> set [0..<length ?tri div 3]. length ?pts \<le> ?tri ! (3 * index))"
    using valid n by (auto simp: not_le)
  have res: "sort_faces_back_to_front self vect st = Inr (self\<lparr>triangle_indices := F 2 (F 1 (F 0 ?tri))\<rparr>)"
  proof -
    have 0: "assign_stride_checked 0 3 ?tri (map (\<lambda>i. get_stride 0 3 ?tri ! i) sg) = Inr (F 0 ?tri)"
      by (rule step) (simp_all add: len)
    have 1: "assign_stride_checked 1 3 (F 0 ?tri) (map (\<lambda>i. get_stride 1 3 (F 0 ?tri) ! i) sg) = Inr (F 1 (F 0 ?tri))"
      by (rule step) (simp_all add: lF)
    have 2: "assign_stride_checked 2 3 (F 1 (F 0 ?tri)) (map (\<lambda>i. get_stride 2 3 (F 1 (F 0 ?tri)) ! i) sg)
        = Inr (F 2 (F 1 (F 0 ?tri)))"
      by (rule step) (simp_all add: lF)
    show ?thesis
      unfolding sort_faces_back_to_front_def Let_def
      using ok by (simp only: if_False n index_dot_def[symmetric] sg_def[symmetric] 0 1 2 sum.case)
  qed
  have nthF: "F k xs ! p = (if p mod 3 = k then xs ! (3 * (sg ! (p div 3)) + k) else xs ! p)"
    if "p < 3 * n" for k p and xs :: "nat list"
    using that by (simp add: F_def)
  have entry: "F 2 (F 1 (F 0 ?tri)) ! (3 * q + k) = ?tri ! (3 * (sg ! q) + k)"
    if q: "q < n" and k: "k < 3" for q k
  proof -
    define p where "p = 3 * q + k"
    define p' where "p' = 3 * (sg ! q) + k"
    have sq: "sg ! q < n" using q lsg ssg by simp
    have p: "p < 3 * n" "p mod 3 = k" "p div 3 = q" using q k by (simp_all add: p_def)
    have p': "p' < 3 * n" "p' mod 3 = k" using sq k by (simp_all add: p'_def)
    have ch: "F k xs ! p = xs ! p'" for xs :: "nat list"
      using p by (simp add: nthF p'_def)
    have un: "F j xs ! p = xs ! p" "F j xs ! p' = xs ! p'" if "j \<noteq> k" for j and xs :: "nat list"
      using p p' that by (auto simp: nthF)
    from k have "k = 0 \<or> k = 1 \<or> k = 2" by arith
    then have "F 2 (F 1 (F 0 ?tri)) ! p = ?tri ! p'"
    proof (elim disjE)
      assume k0: "k = 0"
      then have "F 2 (F 1 (F 0 ?tri)) ! p = F 0 ?tri ! p" by (simp add: un)
      then show ?thesis using ch k0 by simp
    next
      assume k1: "k = 1"
      then have "F 2 (F 1 (F 0 ?tri)) ! p = F 1 (F 0 ?tri) ! p" by (simp add: un)
      also have "\<dots> = F 0 ?tri ! p'" using ch k1 by simp
      also have "\<dots> = ?tri ! p'" using k1 by (simp add: un)
      finally show ?thesis .
    next
      assume k2: "k = 2"
      then have "F 2 (F 1 (F 0 ?tri)) ! p = F 1 (F 0 ?tri) ! p'" using ch by simp
      also have "\<dots> = ?tri ! p'" using k2 by (simp add: un)
      finally show ?thesis .
    qed
    then show ?thesis by (simp add: p_def p'_def)
  qed
  have lT: "length ?T = n" by (simp add: triangles_def n)
  have T': "triangles (F 2 (F 1 (F 0 ?tri))) = map (\<lambda>i. ?T ! i) sg"
  proof (rule nth_equalityI)
    show "length (triangles (F 2 (F 1 (F 0 ?tri)))) = length (map (\<lambda>i. ?T ! i) sg)"
      by (simp add: triangles_def lF lsg)
  next
    fix q assume "q < length (triangles (F 2 (F 1 (F 0 ?tri))))"
    then have q: "q < n" by (simp add: triangles_def lF)
    then have sq: "sg ! q < n" using lsg ssg by simp
    have "triangles (F 2 (F 1 (F 0 ?tri))) ! q =
        (F 2 (F 1 (F 0 ?tri)) ! (3 * q + 0), F 2 (F 1 (F 0 ?tri)) ! (3 * q + 1), F 2 (F 1 (F 0 ?tri)) ! (3 * q + 2))"
      using q by (simp add: triangles_def lF)
    also have "\<dots> = (?tri ! (3 * (sg ! q) + 0), ?tri ! (3 * (sg ! q) + 1), ?tri ! (3 * (sg ! q) + 2))"
      using q by (simp only: entry) 
    also have "\<dots> = ?T ! (sg ! q)" using sq by (simp add: triangles_def n)
    finally show "triangles (F 2 (F 1 (F 0 ?tri))) ! q = map (\<lambda>i. ?T ! i) sg ! q"
      using q lsg by simp
  qed
  have "sg = sort_key (\<lambda>i. ?key (?T ! i)) [0..<n]"
    unfolding sg_def
    by (rule sort_key_cong_set) (simp add: index_dot_def triangle_key_def triangles_def n)
  then have "map (\<lambda>i. ?T ! i) sg = sort_key ?key (map (\<lambda>i. ?T ! i) [0..<n])"
    by (simp only: map_sort_key)
  also have "map (\<lambda>i. ?T ! i) [0..<n] = ?T" using map_nth[of ?T] by (simp add: lT)
  finally have "triangles (F 2 (F 1 (F 0 ?tri))) = sort_key ?key ?T" using T' by simp
  then show ?thesis using res lF by simp
qed

text \<open>
  Claim C5. For an index buffer of whole triangles whose first vertices are points of the
  buffer, and any view direction, \<open>sort_faces_back_to_front\<close> reorders the triangles as
  whole groups of three indices, each with its vertex order kept (the triangles after are a
  permutation of the triangles before), into ascending order of the key
  \<open>dot(position of the first vertex, view direction)\<close>, and triangles with equal keys keep
  their relative order.
\<close>

theorem sort_faces_back_to_front_sorted:
  assumes len: "length (triangle_indices self) = 3 * n"
    and valid: "\<forall>t<n. triangle_indices self ! (3 * t) < length (get_points st self)"
  shows "\<exists>self'. sort_faces_back_to_front self vect st = Inr self' \<and>
      length (triangle_indices self') = 3 * n \<and>
      mset (triangles (triangle_indices self')) = mset (triangles (triangle_indices self)) \<and>
      sorted (map (triangle_key (get_points st self) vect) (triangles (triangle_indices self'))) \<and>
      (\<forall>key. filter (\<lambda>t. triangle_key (get_points st self) vect t = key) (triangles (triangle_indices self')) =
             filter (\<lambda>t. triangle_key (get_points st self) vect t = key) (triangles (triangle_indices self)))"
proof -
  from sort_faces_result[OF len valid, of vect] obtain self' where
    r: "sort_faces_back_to_front self vect st = Inr self'" and
    l: "length (triangle_indices self') = 3 * n" and
    t: "triangles (triangle_indices self') =
        sort_key (triangle_key (get_points st self) vect) (triangles (triangle_indices self))"
    by blast
  show ?thesis using r l by (simp add: t sort_key_stable)
qed

theorem sort_faces_back_to_front_sorted_witness:
  "sorted (map (triangle_key example_buffer (0, 0, 1))
      (triangles (triangle_indices (projr (sort_faces_back_to_front example_mesh (0, 0, 1) example_store))))) \<and>
   filter (\<lambda>t. triangle_key example_buffer (0, 0, 1) t = 0)
      (triangles (triangle_indices (projr (sort_faces_back_to_front example_mesh (0, 0, 1) example_store))))
     = [(0, 1, 2), (4, 5, 6)]"
proof -
  have gp: "get_points example_store example_mesh = example_buffer"
    by (simp add: get_points_def example_store_def example_mesh_def)
  have len: "length (triangle_indices example_mesh) = 3 * 3" by (simp add: example_mesh_def)
  have valid: "\<forall>t<3. triangle_indices example_mesh ! (3 * t) < length (get_points example_store example_mesh)"
  proof (intro allI impI)
    fix t :: nat assume "t < 3"
    then have "t = 0 \<or> t = 1 \<or> t = 2" by arith
    then show "triangle_indices example_mesh ! (3 * t) < length (get_points example_store example_mesh)"
      unfolding gp by (auto simp: example_mesh_def example_buffer_def)
  qed
  from sort_faces_back_to_front_sorted[OF len valid, of "(0, 0, 1)"] obtain self' where
    r: "sort_faces_back_to_front example_mesh (0, 0, 1) example_store = Inr self'" and
    s: "sorted (map (triangle_key example_buffer (0, 0, 1)) (triangles (triangle_indices self')))" and
    f: "\<forall>key. filter (\<lambda>t. triangle_key example_buffer (0, 0, 1) t = key) (triangles (triangle_indices self')) =
             filter (\<lambda>t. triangle_key example_buffer (0, 0, 1) t = key) (triangles (triangle_indices example_mesh))"
    unfolding gp by blast
  have T: "triangles (triangle_indices example_mesh) = [(8, 0, 1), (0, 1, 2), (4, 5, 6)]"
    by (simp add: triangles_def example_mesh_def upt_conv_Cons)
  have "filter (\<lambda>t. triangle_key example_buffer (0, 0, 1) t = 0) (triangles (triangle_indices example_mesh))
      = [(0, 1, 2), (4, 5, 6)]"
    by (simp add: T triangle_key_def dot_def example_buffer_def)
  with f have "filter (\<lambda>t. triangle_key example_buffer (0, 0, 1) t = 0) (triangles (triangle_indices self'))
      = [(0, 1, 2), (4, 5, 6)]" by simp
  with s r show ?thesis by simp
qed

subsection \<open>Colouring by value\<close>

lemma py_get_first: "xs \<noteq> [] \<Longrightarrow> py_get xs 0 = Inr (hd xs)"
  by (cases xs) (simp_all add: py_get_def py_index_def)

lemma py_get_last: "xs \<noteq> [] \<Longrightarrow> py_get xs (- 1) = Inr (last xs)"
proof -
  assume ne: "xs \<noteq> []"
  then obtain n where n: "length xs = Suc n" by (cases xs) auto
  then have "py_index (length xs) (- 1) = Inr n"
    by (simp add: py_index_def)
  then show ?thesis using ne n by (simp add: py_get_def last_conv_nth)
qed

lemma py_get_nat: "i < length xs \<Longrightarrow> py_get xs (int i) = Inr (xs ! i)"
  by (simp add: py_get_def py_index_def)

lemma py_get_pred: "0 < i \<Longrightarrow> i \<le> length xs \<Longrightarrow> py_get xs (int i - 1) = Inr (xs ! (i - 1))"
  using py_get_nat[of "i - 1" xs] by (simp add: of_nat_diff)

lemma first_above_Some:
  "first_above ps z k = Some j \<Longrightarrow>
   k \<le> j \<and> j - k < length ps \<and> z < ps ! (j - k) \<and> (\<forall>m<j - k. ps ! m \<le> z)"
proof (induction ps arbitrary: k)
  case Nil then show ?case by simp
next
  case (Cons p ps)
  show ?case
  proof (cases "p > z")
    case True
    with Cons.prems show ?thesis by simp
  next
    case False
    with Cons.prems have r: "first_above ps z (Suc k) = Some j" by simp
    from Cons.IH[OF r] have j: "Suc k \<le> j" "j - Suc k < length ps" "z < ps ! (j - Suc k)"
      "\<forall>m<j - Suc k. ps ! m \<le> z" by simp_all
    have e: "j - k = Suc (j - Suc k)" using j(1) by simp
    show ?thesis using j False unfolding e by (auto simp: nth_Cons split: nat.splits)
  qed
qed

lemma first_above_None: "first_above ps z k = None \<Longrightarrow> \<forall>p \<in> set ps. p \<le> z"
  by (induction ps arbitrary: k) (auto split: if_splits simp: not_less)

lemma color_of_value_spec:
  assumes len: "length new_colors = length pivots" and ne: "pivots \<noteq> []"
    and asc: "sorted_wrt (<) pivots"
  shows "\<exists>c. color_of_value ic new_colors pivots z = Inr (Some c) \<and>
     (z \<le> hd pivots \<longrightarrow> c = hd new_colors) \<and>
     (last pivots \<le> z \<longrightarrow> c = last new_colors) \<and>
     (hd pivots < z \<and> z < last pivots \<longrightarrow>
        (\<exists>i. 0 < i \<and> i < length pivots \<and> pivots ! (i - 1) \<le> z \<and> z < pivots ! i \<and>
             c = ic (new_colors ! (i - 1)) (new_colors ! i)
                   (max 0 (min 1 ((z - pivots ! (i - 1)) / (pivots ! i - pivots ! (i - 1)))))))"
proof -
  have nc: "new_colors \<noteq> []" using len ne by auto
  note g = py_get_first[OF ne] py_get_last[OF ne] py_get_first[OF nc] py_get_last[OF nc]
  have single: "hd new_colors = last new_colors" if "last pivots \<le> hd pivots"
  proof -
    have "length pivots = 1"
    proof (rule ccontr)
      assume "length pivots \<noteq> 1"
      then have l: "1 < length pivots" using ne by (cases pivots) auto
      then have "pivots ! 0 < pivots ! (length pivots - 1)"
        using asc by (simp add: sorted_wrt_iff_nth_less)
      then show False using that ne by (simp add: hd_conv_nth last_conv_nth)
    qed
    then obtain c where "new_colors = [c]" using len by (cases new_colors) auto
    then show ?thesis by simp
  qed
  consider (low) "z \<le> hd pivots" | (high) "hd pivots < z" "last pivots \<le> z"
    | (mid) "hd pivots < z" "z < last pivots" by linarith
  then show ?thesis
  proof cases
    case low
    then have "color_of_value ic new_colors pivots z = Inr (Some (hd new_colors))"
      by (simp add: color_of_value_def g)
    then show ?thesis using low single by auto
  next
    case high
    then have "color_of_value ic new_colors pivots z = Inr (Some (last new_colors))"
      by (simp add: color_of_value_def g)
    then show ?thesis using high by auto
  next
    case mid
    have "first_above pivots z 0 \<noteq> None"
    proof
      assume "first_above pivots z 0 = None"
      then have "last pivots \<le> z" using first_above_None ne last_in_set by blast
      then show False using mid by simp
    qed
    then obtain i where fa: "first_above pivots z 0 = Some i" by auto
    from first_above_Some[OF fa] have i: "i < length pivots" "z < pivots ! i" "\<forall>m<i. pivots ! m \<le> z"
      by simp_all
    have i0: "0 < i"
    proof (rule ccontr)
      assume "\<not> 0 < i"
      then have "z < pivots ! 0" using i(2) by simp
      then show False using mid ne by (simp add: hd_conv_nth)
    qed
    have prev: "pivots ! (i - 1) \<le> z" using i(3) i0 by simp
    let ?t = "(z - pivots ! (i - 1)) / (pivots ! i - pivots ! (i - 1))"
    have d: "0 < pivots ! i - pivots ! (i - 1)" using prev i(2) by simp
    have t0: "0 \<le> ?t" using prev d by simp
    have t1: "?t < 1" using i(2) d by (simp add: field_simps)
    have mm: "min ?t 1 = max 0 (min 1 ?t)" using t0 t1 by simp
    have gp: "py_get pivots (int i - 1) = Inr (pivots ! (i - 1))"
      using i0 i(1) by (intro py_get_pred) simp_all
    have gc: "py_get new_colors (int i - 1) = Inr (new_colors ! (i - 1))"
      "py_get new_colors (int i) = Inr (new_colors ! i)"
      using i0 i(1) len by (simp_all add: py_get_pred py_get_nat)
    have "color_of_value ic new_colors pivots z =
        Inr (Some (ic (new_colors ! (i - 1)) (new_colors ! i) (min ?t 1)))"
      using mid fa by (simp add: color_of_value_def g gp gc Let_def)
    then have "color_of_value ic new_colors pivots z =
        Inr (Some (ic (new_colors ! (i - 1)) (new_colors ! i) (max 0 (min 1 ?t))))"
      by (simp only: mm)
    then show ?thesis using mid i0 i prev by auto
  qed
qed

text \<open>
  Claim C6. For every ascending sequence of pivots with its parallel sequence of colours,
  \<open>set_fill_by_value\<close> gives each mesh element whose measured value is at or below the first
  pivot exactly the first colour, each element at or above the last pivot exactly the last
  colour, and every other element the interpolation between the two bracketing colours at the
  fractional position of the value within the bracket, that fraction clamped to \<open>[0, 1]\<close>.
  The witness is the example of the claim: pivots \<open>[-0.4, 0, 0.4]\<close> with three colours send
  \<open>-0.5\<close> to the first colour, \<open>0.5\<close> to the last, and \<open>0.2\<close> to the colour halfway between
  the second and the third.
\<close>

theorem set_fill_by_value_spec:
  assumes asc: "sorted_wrt (<) (map snd cps)" and ne: "cps \<noteq> []"
  shows "\<exists>cols. set_fill_by_value ic z_range (Tuples cps) z_values = Inr (map Some cols) \<and>
      length cols = length z_values \<and>
      (\<forall>m<length z_values.
         (z_values ! m \<le> hd (map snd cps) \<longrightarrow> cols ! m = hd (map fst cps)) \<and>
         (last (map snd cps) \<le> z_values ! m \<longrightarrow> cols ! m = last (map fst cps)) \<and>
         (hd (map snd cps) < z_values ! m \<and> z_values ! m < last (map snd cps) \<longrightarrow>
            (\<exists>i. 0 < i \<and> i < length cps \<and>
                 snd (cps ! (i - 1)) \<le> z_values ! m \<and> z_values ! m < snd (cps ! i) \<and>
                 cols ! m = ic (fst (cps ! (i - 1))) (fst (cps ! i))
                   (max 0 (min 1 ((z_values ! m - snd (cps ! (i - 1))) /
                                   (snd (cps ! i) - snd (cps ! (i - 1)))))))))"
proof -
  let ?colors = "map fst cps" and ?pivots = "map snd cps"
  let ?P = "\<lambda>z c. color_of_value ic ?colors ?pivots z = Inr (Some c) \<and>
     (z \<le> hd ?pivots \<longrightarrow> c = hd ?colors) \<and>
     (last ?pivots \<le> z \<longrightarrow> c = last ?colors) \<and>
     (hd ?pivots < z \<and> z < last ?pivots \<longrightarrow>
        (\<exists>i. 0 < i \<and> i < length ?pivots \<and> ?pivots ! (i - 1) \<le> z \<and> z < ?pivots ! i \<and>
             c = ic (?colors ! (i - 1)) (?colors ! i)
                   (max 0 (min 1 ((z - ?pivots ! (i - 1)) / (?pivots ! i - ?pivots ! (i - 1)))))))"
  have "\<forall>z. \<exists>c. ?P z c"
    using color_of_value_spec[of ?colors ?pivots ic] asc ne by simp
  then obtain f where f: "\<forall>z. ?P z (f z)" by metis
  have "map (color_of_value ic ?colors ?pivots) z_values = map (\<lambda>z. Inr (Some (f z))) z_values"
    using f by simp
  then have "collect (map (color_of_value ic ?colors ?pivots) z_values) = Inr (map (\<lambda>z. Some (f z)) z_values)"
    by (simp only: collect_map_Inr)
  then have r: "set_fill_by_value ic z_range (Tuples cps) z_values = Inr (map Some (map f z_values))"
    using ne by (simp add: set_fill_by_value_def comp_def)
  have "(z_values ! m \<le> hd ?pivots \<longrightarrow> map f z_values ! m = hd ?colors) \<and>
         (last ?pivots \<le> z_values ! m \<longrightarrow> map f z_values ! m = last ?colors) \<and>
         (hd ?pivots < z_values ! m \<and> z_values ! m < last ?pivots \<longrightarrow>
            (\<exists>i. 0 < i \<and> i < length cps \<and>
                 snd (cps ! (i - 1)) \<le> z_values ! m \<and> z_values ! m < snd (cps ! i) \<and>
                 map f z_values ! m = ic (fst (cps ! (i - 1))) (fst (cps ! i))
                   (max 0 (min 1 ((z_values ! m - snd (cps ! (i - 1))) /
                                   (snd (cps ! i) - snd (cps ! (i - 1))))))))"
    if m: "m < length z_values" for m
  proof (intro conjI impI)
    assume "z_values ! m \<le> hd ?pivots"
    then show "map f z_values ! m = hd ?colors" using f m by simp
  next
    assume "last ?pivots \<le> z_values ! m"
    then show "map f z_values ! m = last ?colors" using f m by simp
  next
    assume a: "hd ?pivots < z_values ! m \<and> z_values ! m < last ?pivots"
    with f obtain i where i: "0 < i" "i < length ?pivots" "?pivots ! (i - 1) \<le> z_values ! m"
      "z_values ! m < ?pivots ! i"
      "f (z_values ! m) = ic (?colors ! (i - 1)) (?colors ! i)
          (max 0 (min 1 ((z_values ! m - ?pivots ! (i - 1)) / (?pivots ! i - ?pivots ! (i - 1)))))"
      by blast
    have b: "i < length cps" "i - 1 < length cps" using i(1,2) by simp_all
    show "\<exists>i. 0 < i \<and> i < length cps \<and>
                 snd (cps ! (i - 1)) \<le> z_values ! m \<and> z_values ! m < snd (cps ! i) \<and>
                 map f z_values ! m = ic (fst (cps ! (i - 1))) (fst (cps ! i))
                   (max 0 (min 1 ((z_values ! m - snd (cps ! (i - 1))) /
                                   (snd (cps ! i) - snd (cps ! (i - 1))))))"
      using i b m by (intro exI[of _ i]) (simp add: nth_map)
  qed
  then show ?thesis using r by (intro exI[of _ "map f z_values"]) simp
qed

theorem set_fill_by_value_spec_witness:
  "set_fill_by_value interpolate (- 1, 1)
     (Tuples [((1, 0, 0), - 2 / 5), ((1, 1, 0), 0), ((0, 1, 0), 2 / 5)]) [- 1 / 2, 1 / 2, 1 / 5]
   = Inr [Some (1, 0, 0), Some (0, 1, 0), Some (interpolate (1, 1, 0) (0, 1, 0) (1 / 2))]"
proof -
  let ?cps = "[((1, 0, 0), - 2 / 5), ((1, 1, 0), 0), ((0, 1, 0), 2 / 5)] :: (point \<times> real) list"
  let ?zs = "[- 1 / 2, 1 / 2, 1 / 5] :: real list"
  have asc: "sorted_wrt (<) (map snd ?cps)" by simp
  have ne: "?cps \<noteq> []" by simp
  from set_fill_by_value_spec[OF asc ne, of interpolate "(- 1, 1)" ?zs] obtain cols where
    r: "set_fill_by_value interpolate (- 1, 1) (Tuples ?cps) ?zs = Inr (map Some cols)" and
    l: "length cols = 3" and
    p: "\<forall>m<3.
         (?zs ! m \<le> hd (map snd ?cps) \<longrightarrow> cols ! m = hd (map fst ?cps)) \<and>
         (last (map snd ?cps) \<le> ?zs ! m \<longrightarrow> cols ! m = last (map fst ?cps)) \<and>
         (hd (map snd ?cps) < ?zs ! m \<and> ?zs ! m < last (map snd ?cps) \<longrightarrow>
            (\<exists>i. 0 < i \<and> i < length ?cps \<and>
                 snd (?cps ! (i - 1)) \<le> ?zs ! m \<and> ?zs ! m < snd (?cps ! i) \<and>
                 cols ! m = interpolate (fst (?cps ! (i - 1))) (fst (?cps ! i))
                   (max 0 (min 1 ((?zs ! m - snd (?cps ! (i - 1))) /
                                   (snd (?cps ! i) - snd (?cps ! (i - 1))))))))"
    by auto
  from p[rule_format, of 0] have c0: "cols ! 0 = (1, 0, 0)" by simp
  from p[rule_format, of 1] have c1: "cols ! 1 = (0, 1, 0)" by simp
  from p[rule_format, of 2] obtain i where i: "0 < i" "i < 3"
    "snd (?cps ! (i - 1)) \<le> 1 / 5" "1 / 5 < snd (?cps ! i)"
    "cols ! 2 = interpolate (fst (?cps ! (i - 1))) (fst (?cps ! i))
        (max 0 (min 1 ((1 / 5 - snd (?cps ! (i - 1))) / (snd (?cps ! i) - snd (?cps ! (i - 1))))))"
    by auto
  from i(1,2) have "i = 1 \<or> i = 2" by arith
  then have i2: "i = 2" using i(4) by auto
  have c2: "cols ! 2 = interpolate (1, 1, 0) (0, 1, 0) (1 / 2)" using i(5) unfolding i2 by simp
  from l obtain x y z where cols: "cols = [x, y, z]"
    by (auto simp: length_Suc_conv numeral_3_eq_3)
  with c0 c1 c2 have "cols = [(1, 0, 0), (0, 1, 0), interpolate (1, 1, 0) (0, 1, 0) (1 / 2)]" by simp
  with r show ?thesis by simp
qed

end
